theory Spec2Isabelle
  imports Complex_Main
begin

section \<open>Numbers\<close>

text \<open>
  Heights, fluxes and coordinates are JavaScript numbers. They are modelled as real
  numbers: rounding and overflow are outside the model. What the model does keep is
  the result of a division whose divisor may be zero: JavaScript then leaves the finite
  numbers (\<open>0/0\<close> is NaN, \<open>x/0\<close> is an infinity), where HOL would silently return \<open>0\<close>.
  The sign of a zero divisor is not followed: a positive dividend gives \<open>PosInf\<close>.
\<close>

datatype jsnum = Num real | PosInf | NegInf | NaN

definition js_div :: "real \<Rightarrow> real \<Rightarrow> jsnum" where
  "js_div a b =
     (if b \<noteq> 0 then Num (a / b)
      else if a > 0 then PosInf
      else if a < 0 then NegInf
      else NaN)"

text \<open>\<open>c * x\<close> and \<open>a - x\<close> for a finite left operand.\<close>

fun js_scale :: "real \<Rightarrow> jsnum \<Rightarrow> jsnum" where
  "js_scale c (Num a) = Num (c * a)"
| "js_scale c NaN = NaN"
| "js_scale c PosInf = (if c > 0 then PosInf else if c < 0 then NegInf else NaN)"
| "js_scale c NegInf = (if c > 0 then NegInf else if c < 0 then PosInf else NaN)"

fun js_minus :: "real \<Rightarrow> jsnum \<Rightarrow> jsnum" where
  "js_minus a (Num b) = Num (a - b)"
| "js_minus a NaN = NaN"
| "js_minus a PosInf = NegInf"
| "js_minus a NegInf = PosInf"

text \<open>
  \<open>d3.min\<close> and \<open>d3.max\<close> belong to the d3-array library, which the repository uses
  and does not contain: the least and the greatest element of an array of numbers,
  \<open>undefined\<close> (\<open>None\<close>) for an empty array.
\<close>

fun d3_min :: "real list \<Rightarrow> real option" where
  "d3_min [] = None"
| "d3_min (x # xs) = (case d3_min xs of None \<Rightarrow> Some x | Some m \<Rightarrow> Some (min x m))"

fun d3_max :: "real list \<Rightarrow> real option" where
  "d3_max [] = None"
| "d3_max (x # xs) = (case d3_max xs of None \<Rightarrow> Some x | Some m \<Rightarrow> Some (max x m))"

section \<open>Mesh\<close>

type_synonym point = "real \<times> real"

record extent =
  width :: real
  height :: real

text \<open>
  The object built by \<open>makeMesh\<close>: \<open>pts\<close> the sites, \<open>vxs\<close> the position of each
  vertex, \<open>adj\<close> the neighbour ids of each vertex, \<open>tris\<close> the sites of the
  tessellation cells that touch each vertex, \<open>edges\<close> the two vertex ids of each edge
  with the sites on its two sides (the right one is absent on the border).
  The field \<open>vor\<close> (the d3 diagram) is used by the drawing code only and is left out.
\<close>

record mesh =
  pts :: "point list"
  vxs :: "point list"
  adj :: "nat list list"
  tris :: "point list list"
  edges :: "(nat \<times> nat \<times> point \<times> point option) list"
  extent :: extent

text \<open>
  A height map is a JavaScript array of numbers with the mesh attached as a property.
  The functions below take the mesh and the array as two arguments. They are written
  for a map bound to its mesh (one value per vertex) and a mesh whose neighbour ids
  are vertices of the mesh, which is what \<open>makeMesh\<close>, \<open>zero\<close> and \<open>mesh.map\<close>
  produce; every theorem states this as \<open>mesh_ok\<close> and \<open>field_ok\<close>.
\<close>

definition mesh_ok :: "mesh \<Rightarrow> bool" where
  "mesh_ok m \<longleftrightarrow>
     length (adj m) = length (vxs m) \<and>
     (\<forall>nbs \<in> set (adj m). \<forall>j \<in> set nbs. j < length (vxs m))"

definition field_ok :: "mesh \<Rightarrow> real list \<Rightarrow> bool" where
  "field_ok m h \<longleftrightarrow> length h = length (vxs m)"

definition zero :: "mesh \<Rightarrow> real list" where
  "zero m = replicate (length (vxs m)) 0"

definition isedge :: "mesh \<Rightarrow> nat \<Rightarrow> bool" where
  "isedge m i \<longleftrightarrow> length (adj m ! i) < 3"

definition isnearedge :: "mesh \<Rightarrow> nat \<Rightarrow> bool" where
  "isnearedge m i =
     (let x = fst (vxs m ! i); y = snd (vxs m ! i);
          w = width (extent m); h = height (extent m)
      in x < - 0.45 * w \<or> x > 0.45 * w \<or> y < - 0.45 * h \<or> y > 0.45 * h)"

definition neighbours :: "mesh \<Rightarrow> nat \<Rightarrow> nat list" where
  "neighbours m i = adj m ! i"

definition distance :: "mesh \<Rightarrow> nat \<Rightarrow> nat \<Rightarrow> real" where
  "distance m i j =
     (let p = vxs m ! i; q = vxs m ! j
      in sqrt ((fst p - fst q) * (fst p - fst q) + (snd p - snd q) * (snd p - snd q)))"

section \<open>Height maps\<close>

text \<open>
  \<open>normalize\<close>: \<open>lo = d3.min(h)\<close>, \<open>hi = d3.max(h)\<close>, every value becomes
  \<open>(x - lo) / (hi - lo)\<close>. Mapping over the empty array gives the empty array.
\<close>

definition normalize :: "real list \<Rightarrow> jsnum list" where
  "normalize h =
     (case (d3_min h, d3_max h) of
        (Some lo, Some hi) \<Rightarrow> map (\<lambda>x. js_div (x - lo) (hi - lo)) h
      | _ \<Rightarrow> [])"


section \<open>Hydrology\<close>

text \<open>
  \<open>downhill\<close>: for every vertex the id of its lowest neighbour, \<open>-1\<close> for a local
  minimum and \<open>-2\<close> for a vertex on the edge of the map. The scan keeps the first
  neighbour that is strictly lower than the best height so far. The cache
  \<open>h.downhill\<close> only saves the recomputation and is not modelled.
\<close>

fun lowest :: "real list \<Rightarrow> nat list \<Rightarrow> int \<times> real \<Rightarrow> int \<times> real" where
  "lowest h [] (best, besth) = (best, besth)"
| "lowest h (nb # nbs) (best, besth) =
     (if h ! nb < besth then lowest h nbs (int nb, h ! nb)
      else lowest h nbs (best, besth))"

definition downfrom :: "mesh \<Rightarrow> real list \<Rightarrow> nat \<Rightarrow> int" where
  "downfrom m h i =
     (if isedge m i then - 2
      else fst (lowest h (neighbours m i) (- 1, h ! i)))"

definition downhill :: "mesh \<Rightarrow> real list \<Rightarrow> int list" where
  "downhill m h = map (downfrom m h) [0..<length h]"

text \<open>\<open>trislope\<close>: the gradient at vertex \<open>i\<close>, two divisions by the determinant.\<close>

definition trislope :: "mesh \<Rightarrow> real list \<Rightarrow> nat \<Rightarrow> jsnum \<times> jsnum" where
  "trislope m h i =
     (let nbs = neighbours m i in
      if length nbs \<noteq> 3 then (Num 0, Num 0)
      else
        let p0 = vxs m ! (nbs ! 0); p1 = vxs m ! (nbs ! 1); p2 = vxs m ! (nbs ! 2);
            x1 = fst p1 - fst p0; x2 = fst p2 - fst p0;
            y1 = snd p1 - snd p0; y2 = snd p2 - snd p0;
            det = x1 * y2 - x2 * y1;
            h1 = h ! (nbs ! 1) - h ! (nbs ! 0);
            h2 = h ! (nbs ! 2) - h ! (nbs ! 0)
        in (js_div (y2 * h1 - y1 * h2) det, js_div (- x2 * h1 + x1 * h2) det))"

text \<open>
  \<open>getSlope\<close>: \<open>Math.sqrt(s[0] * s[0] + s[1] * s[1])\<close>. A NaN component makes the
  result NaN; otherwise an infinite component makes it \<open>+Infinity\<close>.
\<close>

fun magnitude :: "jsnum \<times> jsnum \<Rightarrow> jsnum" where
  "magnitude (Num a, Num b) = Num (sqrt (a * a + b * b))"
| "magnitude (NaN, _) = NaN"
| "magnitude (_, NaN) = NaN"
| "magnitude (_, _) = PosInf"

definition getSlope :: "mesh \<Rightarrow> real list \<Rightarrow> jsnum list" where
  "getSlope m h = map (\<lambda>i. magnitude (trislope m h i)) [0..<length h]"

text \<open>
  \<open>fillSinks\<close>. \<open>relaxVertex\<close> is the loop over the neighbours of one vertex (the
  first branch is the one that ends with \<open>break\<close>), \<open>sweep\<close> the loop over the
  vertices, \<open>fillLoop\<close> the \<open>while (true)\<close> around them, which the code leaves only
  through \<open>if (!changed) return newh\<close>: a run that never returns is the value \<open>None\<close>.
  The sum \<open>newh[nbs[j]] + epsilon\<close> is the exact sum of two numbers here; the sum
  of two doubles is rounded, and the loops with the sum left open follow below.
\<close>

fun relaxVertex :: "real list \<Rightarrow> real \<Rightarrow> nat \<Rightarrow> nat list \<Rightarrow> real list \<times> bool \<Rightarrow> real list \<times> bool" where
  "relaxVertex h eps i [] (newh, changed) = (newh, changed)"
| "relaxVertex h eps i (nb # nbs) (newh, changed) =
     (if h ! i \<ge> newh ! nb + eps then (newh[i := h ! i], True)
      else
        let oh = newh ! nb + eps in
        if newh ! i > oh \<and> oh > h ! i
        then relaxVertex h eps i nbs (newh[i := oh], True)
        else relaxVertex h eps i nbs (newh, changed))"

fun sweep :: "mesh \<Rightarrow> real list \<Rightarrow> real \<Rightarrow> nat list \<Rightarrow> real list \<times> bool \<Rightarrow> real list \<times> bool" where
  "sweep m h eps [] (newh, changed) = (newh, changed)"
| "sweep m h eps (i # is) (newh, changed) =
     (if newh ! i = h ! i then sweep m h eps is (newh, changed)
      else sweep m h eps is (relaxVertex h eps i (neighbours m i) (newh, changed)))"

partial_function (option) fillLoop :: "mesh \<Rightarrow> real list \<Rightarrow> real \<Rightarrow> real list \<Rightarrow> real list option" where
  "fillLoop m h eps newh =
     (case sweep m h eps [0..<length h] (newh, False) of
        (newh', changed) \<Rightarrow> if \<not> changed then Some newh' else fillLoop m h eps newh')"

definition infinity :: real where
  "infinity = 999999"

definition fillStart :: "mesh \<Rightarrow> real list \<Rightarrow> real list" where
  "fillStart m h = map (\<lambda>i. if isnearedge m i then h ! i else infinity) [0..<length h]"

definition fillSinks :: "mesh \<Rightarrow> real list \<Rightarrow> real \<Rightarrow> real list option" where
  "fillSinks m h epsilon =
     (let eps = (if epsilon = 0 then 1 / 100000 else epsilon)
      in fillLoop m h eps (fillStart m h))"

text \<open>
  \<open>fillSinks\<close> with the sum \<open>newh[nbs[j]] + epsilon\<close> left open. The sum of
  \<open>relaxVertex\<close> is the exact one; the sum that JavaScript computes is rounded to
  the nearest double, and an \<open>epsilon\<close> below the resolution of a height is
  absorbed (\<open>1 + 1e-17 == 1\<close>). \<open>relaxVertexWith\<close>, \<open>sweepWith\<close>, \<open>fillLoopWith\<close> and
  \<open>fillSinksWith\<close> are the same loops with the sum passed in as \<open>fadd\<close>; the
  comparisons, which JavaScript computes exactly, stay as they are.
\<close>

fun relaxVertexWith :: "(real \<Rightarrow> real \<Rightarrow> real) \<Rightarrow> real list \<Rightarrow> real \<Rightarrow> nat \<Rightarrow> nat list \<Rightarrow> real list \<times> bool \<Rightarrow> real list \<times> bool" where
  "relaxVertexWith fadd h eps i [] (newh, changed) = (newh, changed)"
| "relaxVertexWith fadd h eps i (nb # nbs) (newh, changed) =
     (if h ! i \<ge> fadd (newh ! nb) eps then (newh[i := h ! i], True)
      else
        let oh = fadd (newh ! nb) eps in
        if newh ! i > oh \<and> oh > h ! i
        then relaxVertexWith fadd h eps i nbs (newh[i := oh], True)
        else relaxVertexWith fadd h eps i nbs (newh, changed))"

fun sweepWith :: "(real \<Rightarrow> real \<Rightarrow> real) \<Rightarrow> mesh \<Rightarrow> real list \<Rightarrow> real \<Rightarrow> nat list \<Rightarrow> real list \<times> bool \<Rightarrow> real list \<times> bool" where
  "sweepWith fadd m h eps [] (newh, changed) = (newh, changed)"
| "sweepWith fadd m h eps (i # is) (newh, changed) =
     (if newh ! i = h ! i then sweepWith fadd m h eps is (newh, changed)
      else sweepWith fadd m h eps is (relaxVertexWith fadd h eps i (neighbours m i) (newh, changed)))"

partial_function (option) fillLoopWith :: "(real \<Rightarrow> real \<Rightarrow> real) \<Rightarrow> mesh \<Rightarrow> real list \<Rightarrow> real \<Rightarrow> real list \<Rightarrow> real list option" where
  "fillLoopWith fadd m h eps newh =
     (case sweepWith fadd m h eps [0..<length h] (newh, False) of
        (newh', changed) \<Rightarrow> if \<not> changed then Some newh' else fillLoopWith fadd m h eps newh')"

definition fillSinksWith :: "(real \<Rightarrow> real \<Rightarrow> real) \<Rightarrow> mesh \<Rightarrow> real list \<Rightarrow> real \<Rightarrow> real list option" where
  "fillSinksWith fadd m h epsilon =
     (let eps = (if epsilon = 0 then 1 / 100000 else epsilon)
      in fillLoopWith fadd m h eps (fillStart m h))"

text \<open>
  \<open>getFlux\<close>: every vertex starts with \<open>1 / h.length\<close>; the vertices are sorted by
  descending height (the comparator is \<open>h[b] - h[a]\<close>; the sort is stable) and each
  one, in that order, adds its flux to its downhill vertex.
\<close>

fun fluxLoop :: "int list \<Rightarrow> nat list \<Rightarrow> real list \<Rightarrow> real list" where
  "fluxLoop dh [] flux = flux"
| "fluxLoop dh (j # js) flux =
     fluxLoop dh js
       (if dh ! j \<ge> 0 then flux[nat (dh ! j) := flux ! nat (dh ! j) + flux ! j] else flux)"

definition getFlux :: "mesh \<Rightarrow> real list \<Rightarrow> real list" where
  "getFlux m h =
     (let dh = downhill m h;
          flux = replicate (length h) (1 / real (length h));
          idxs = sort_key (\<lambda>i. - (h ! i)) [0..<length h]
      in fluxLoop dh idxs flux)"

text \<open>
  \<open>erosionRate\<close>: \<open>1000 * sqrt(flux) * slope + slope * slope\<close>, capped at 200. With an
  infinite slope the total is infinite and the cap makes it 200; a NaN stays NaN
  (\<open>None\<close>), since \<open>NaN > 200\<close> is false.
\<close>

fun removal :: "real \<Rightarrow> jsnum \<Rightarrow> real option" where
  "removal f (Num s) =
     (if f < 0 then None
      else
        let river = sqrt f * s; creep = s * s; total = 1000 * river + creep
        in Some (if total > 200 then 200 else total))"
| "removal f PosInf = (if f > 0 then Some 200 else None)"
| "removal f NegInf = None"
| "removal f NaN = None"

definition erosionRate :: "mesh \<Rightarrow> real list \<Rightarrow> real option list" where
  "erosionRate m h =
     (let flux = getFlux m h; slope = getSlope m h
      in map (\<lambda>i. removal (flux ! i) (slope ! i)) [0..<length h])"

text \<open>
  \<open>erode\<close>: \<open>h[i] - amount * (er[i] / maxr)\<close>, where \<open>maxr = d3.max(er)\<close> skips the
  NaN entries and is \<open>undefined\<close> when there is no other; a NaN or \<open>undefined\<close>
  operand makes the quotient NaN.
\<close>

definition erode :: "mesh \<Rightarrow> real list \<Rightarrow> real \<Rightarrow> jsnum list" where
  "erode m h amount =
     (let er = erosionRate m h;
          maxr = d3_max (List.map_filter id er)
      in map (\<lambda>i. js_minus (h ! i)
                (js_scale amount
                   (case (er ! i, maxr) of
                      (Some a, Some b) \<Rightarrow> js_div a b
                    | _ \<Rightarrow> NaN)))
           [0..<length h])"

text \<open>
  \<open>getRivers\<close> up to the list \<open>links\<close> of flow segments; \<open>mergeSegments\<close> and
  \<open>relaxPath\<close>, which join and smooth them, are not part of the repository's sources.
  \<open>riverLink\<close> is the body of the loop for one vertex.
\<close>

type_synonym segment = "point \<times> point"

definition riverLimit :: "real list \<Rightarrow> real \<Rightarrow> real" where
  "riverLimit h limit = limit * (real (length (filter (\<lambda>x. x > 0) h)) / real (length h))"

definition riverLink :: "mesh \<Rightarrow> real list \<Rightarrow> int list \<Rightarrow> real list \<Rightarrow> real \<Rightarrow> nat \<Rightarrow> segment option" where
  "riverLink m h dh flux threshold i =
     (if isnearedge m i then None
      else if flux ! i > threshold \<and> h ! i > 0 \<and> dh ! i \<ge> 0 then
        (let up = vxs m ! i; down = vxs m ! nat (dh ! i) in
         if h ! nat (dh ! i) > 0 then Some (up, down)
         else Some (up, ((fst up + fst down) / 2, (snd up + snd down) / 2)))
      else None)"

definition riverLinks :: "mesh \<Rightarrow> real list \<Rightarrow> real \<Rightarrow> segment list" where
  "riverLinks m h limit =
     (let dh = downhill m h; flux = getFlux m h; threshold = riverLimit h limit
      in List.map_filter (riverLink m h dh flux threshold) [0..<length dh])"

section \<open>Building the mesh\<close>

text \<open>
  \<open>makeMesh\<close> walks over the edges of the Voronoi diagram that \<open>d3.voronoi\<close> (not
  part of the repository) computes from the points and the extent; the diagram's edge
  array is the parameter \<open>vor_edges\<close>, with \<open>None\<close> for an entry that is
  \<open>undefined\<close>. An edge has its two end points, the site on its left and, unless it
  lies on the border, the site on its right. Sites are identified by their coordinates.
\<close>

record vedge =
  end0 :: point
  end1 :: point
  left :: point
  right :: "point option"

record builder =
  b_vxs :: "point list"
  b_vxids :: "point \<rightharpoonup> nat"
  b_adj :: "nat list list"
  b_edges :: "(nat \<times> nat \<times> point \<times> point option) list"
  b_tris :: "point list list"

text \<open>Look a vertex id up in \<open>vxids\<close>, or assign the next one.\<close>

definition vertexId :: "point \<Rightarrow> point list \<times> (point \<rightharpoonup> nat) \<Rightarrow> nat \<times> point list \<times> (point \<rightharpoonup> nat)" where
  "vertexId p s =
     (case snd s p of
        Some k \<Rightarrow> (k, fst s, snd s)
      | None \<Rightarrow> (length (fst s), fst s @ [p], (snd s)(p \<mapsto> length (fst s))))"

text \<open>
  \<open>a[i] = a[i] || []; a[i].push(x)\<close>: an index past the end extends the array (the
  entries in between, which JavaScript leaves \<open>undefined\<close>, are empty here;
  \<open>makeMesh\<close> never skips an index).
\<close>

definition entryAt :: "'a list list \<Rightarrow> nat \<Rightarrow> 'a list" where
  "entryAt xss i = (if i < length xss then xss ! i else [])"

definition setAt :: "'a list list \<Rightarrow> nat \<Rightarrow> 'a list \<Rightarrow> 'a list list" where
  "setAt xss i xs =
     (if i < length xss then xss[i := xs]
      else xss @ replicate (i - length xss) [] @ [xs])"

definition pushAt :: "'a list list \<Rightarrow> nat \<Rightarrow> 'a \<Rightarrow> 'a list list" where
  "pushAt xss i x = setAt xss i (entryAt xss i @ [x])"

definition noteSites :: "point list list \<Rightarrow> nat \<Rightarrow> point \<Rightarrow> point option \<Rightarrow> point list list" where
  "noteSites ts i l r =
     (let t0 = entryAt ts i;
          t1 = (if l \<in> set t0 then t0 else t0 @ [l]);
          t2 = (case r of None \<Rightarrow> t1 | Some q \<Rightarrow> if q \<in> set t1 then t1 else t1 @ [q])
      in setAt ts i t2)"

fun addEdge :: "vedge option \<Rightarrow> builder \<Rightarrow> builder" where
  "addEdge None b = b"
| "addEdge (Some e) b =
     (case vertexId (end0 e) (b_vxs b, b_vxids b) of (e0, vxs0, ids0) \<Rightarrow>
      case vertexId (end1 e) (vxs0, ids0) of (e1, vxs1, ids1) \<Rightarrow>
        \<lparr>b_vxs = vxs1,
         b_vxids = ids1,
         b_adj = pushAt (pushAt (b_adj b) e0 e1) e1 e0,
         b_edges = b_edges b @ [(e0, e1, left e, right e)],
         b_tris = noteSites (noteSites (b_tris b) e0 (left e) (right e)) e1 (left e) (right e)\<rparr>)"

definition makeMesh :: "point list \<Rightarrow> extent \<Rightarrow> vedge option list \<Rightarrow> mesh" where
  "makeMesh ps ext vor_edges =
     (let b = fold addEdge vor_edges
                \<lparr>b_vxs = [], b_vxids = Map.empty, b_adj = [], b_edges = [], b_tris = []\<rparr>
      in \<lparr>pts = ps, vxs = b_vxs b, adj = b_adj b, tris = b_tris b,
          edges = b_edges b, extent = ext\<rparr>)"

section \<open>Adding height maps\<close>

text \<open>
  \<open>add\<close> takes any number of maps. Here a map carries its mesh. The code reads the
  length and the mesh of the first argument (with no argument that read throws),
  starts from \<open>zero\<close> of that mesh and sums, for each index below that length, the
  values of all arguments at that index. A value read past the end of an array is
  \<open>undefined\<close> (\<open>None\<close>), and a sum with \<open>undefined\<close> is NaN.
\<close>

datatype error = TypeError

record field =
  fmesh :: mesh
  fvals :: "real list"

fun js_plus :: "jsnum \<Rightarrow> real option \<Rightarrow> jsnum" where
  "js_plus (Num a) (Some b) = Num (a + b)"
| "js_plus PosInf (Some b) = PosInf"
| "js_plus NegInf (Some b) = NegInf"
| "js_plus NaN (Some b) = NaN"
| "js_plus _ None = NaN"

definition valueAt :: "field \<Rightarrow> nat \<Rightarrow> real option" where
  "valueAt f i = (if i < length (fvals f) then Some (fvals f ! i) else None)"

definition add :: "field list \<Rightarrow> error + (mesh \<times> jsnum list)" where
  "add arguments =
     (case arguments of
        [] \<Rightarrow> Inl TypeError
      | f # _ \<Rightarrow>
          let n = length (fvals f);
              z = length (vxs (fmesh f));
              newvals = (\<lambda>i. if i < z then Num 0 else NaN)
          in Inr (fmesh f,
                  map (\<lambda>i. if i < n then fold (\<lambda>g acc. js_plus acc (valueAt g i)) arguments (newvals i)
                            else newvals i)
                    [0..<max n z]))"

section \<open>Territories\<close>

text \<open>
  \<open>weight\<close>, the cost of travel from \<open>u\<close> to \<open>v\<close>. \<open>distance\<close> reads the
  positions of both vertices, and throws when one is not a vertex of the mesh. The
  cost is a number here. Between two vertices at the same position (\<open>horiz\<close> is
  0) the quotient \<open>vert / horiz\<close> of the code is NaN or infinite and so is its
  cost, which the number below (with the quotient 0) does not follow; the costs only
  order the queue, and nothing is stated below about that order.
\<close>

definition weight :: "mesh \<Rightarrow> real list \<Rightarrow> real list \<Rightarrow> nat \<Rightarrow> nat \<Rightarrow> real" where
  "weight m h flux u v =
     (let horiz = distance m u v;
          vert0 = h ! v - h ! u;
          vert = (if vert0 > 0 then vert0 / 10 else vert0);
          diff0 = 1 + 0.25 * (vert / horiz)\<^sup>2;
          diff1 = diff0 + 100 * sqrt (flux ! u);
          diff = (if h ! u \<le> 0 then 100 else diff1)
      in if (h ! u > 0) \<noteq> (h ! v > 0) then 1000 else horiz * diff)"

definition weightE :: "mesh \<Rightarrow> real list \<Rightarrow> real list \<Rightarrow> nat \<Rightarrow> nat \<Rightarrow> error + real" where
  "weightE m h flux u v =
     (if u < length (vxs m) \<and> v < length (vxs m) then Inr (weight m h flux u v)
      else Inl TypeError)"

record entry =
  score :: real
  city :: nat
  vx :: nat

text \<open>
  Modelled from the spec: the priority queue (the js-priority-queue library, which
  the repository uses and does not contain) supports inserting an item with a numeric
  score and extracting a minimum-score item, and tolerates several pending entries
  for one vertex. Here it is the list of pending entries; \<open>dequeue\<close> takes out the
  first entry of least score.
\<close>

definition enqueue :: "entry \<Rightarrow> entry list \<Rightarrow> entry list" where
  "enqueue e q = q @ [e]"

fun minEntry :: "entry \<Rightarrow> entry list \<Rightarrow> entry" where
  "minEntry u [] = u"
| "minEntry u (e # es) = minEntry (if score e < score u then e else u) es"

definition dequeue :: "entry list \<Rightarrow> entry \<times> entry list" where
  "dequeue q = (let u = minEntry (hd q) (tl q) in (u, remove1 u q))"

text \<open>The territory map \<open>terr\<close> is a sparse array: a vertex without owner is \<open>undefined\<close>.\<close>

type_synonym territory = "nat \<rightharpoonup> nat"

text \<open>The capital \<open>c\<close> queues travel to each of its neighbours.\<close>

fun queueCapital :: "mesh \<Rightarrow> real list \<Rightarrow> real list \<Rightarrow> nat \<Rightarrow> nat list \<Rightarrow> entry list \<Rightarrow> error + entry list" where
  "queueCapital m h flux c [] q = Inr q"
| "queueCapital m h flux c (nb # nbs) q =
     (case weightE m h flux c nb of
        Inl e \<Rightarrow> Inl e
      | Inr w \<Rightarrow> queueCapital m h flux c nbs (enqueue \<lparr>score = w, city = c, vx = nb\<rparr> q))"

fun seed :: "mesh \<Rightarrow> real list \<Rightarrow> real list \<Rightarrow> nat list \<Rightarrow> territory \<times> entry list \<Rightarrow> error + territory \<times> entry list" where
  "seed m h flux [] (terr, q) = Inr (terr, q)"
| "seed m h flux (c # cs) (terr, q) =
     (if c \<ge> length (adj m) then Inl TypeError
      else case queueCapital m h flux c (neighbours m c) q of
        Inl e \<Rightarrow> Inl e
      | Inr q' \<Rightarrow> seed m h flux cs (terr(c \<mapsto> c), q'))"

text \<open>The newly owned vertex \<open>vx u\<close> queues travel to each neighbour without owner.\<close>

fun queueNeighbours :: "mesh \<Rightarrow> real list \<Rightarrow> real list \<Rightarrow> territory \<Rightarrow> entry \<Rightarrow> nat list \<Rightarrow> entry list \<Rightarrow> error + entry list" where
  "queueNeighbours m h flux terr u [] q = Inr q"
| "queueNeighbours m h flux terr u (v # vs) q =
     (if terr v \<noteq> None then queueNeighbours m h flux terr u vs q
      else case weightE m h flux (vx u) v of
        Inl e \<Rightarrow> Inl e
      | Inr newdist \<Rightarrow>
          queueNeighbours m h flux terr u vs
            (enqueue \<lparr>score = score u + newdist, city = city u, vx = v\<rparr> q))"

text \<open>
  One turn of \<open>while (queue.length)\<close>: an entry whose vertex has an owner is dropped;
  otherwise the vertex goes to the entry's city (\<open>neighbours\<close> throws when it is not
  a vertex of the mesh).
\<close>

definition terrStep :: "mesh \<Rightarrow> real list \<Rightarrow> real list \<Rightarrow> territory \<times> entry list \<Rightarrow> error + territory \<times> entry list" where
  "terrStep m h flux s =
     (case dequeue (snd s) of (u, q) \<Rightarrow>
        if fst s (vx u) \<noteq> None then Inr (fst s, q)
        else if vx u \<ge> length (adj m) then Inl TypeError
        else
          let terr = (fst s)(vx u \<mapsto> city u) in
          case queueNeighbours m h flux terr u (neighbours m (vx u)) q of
            Inl e \<Rightarrow> Inl e
          | Inr q' \<Rightarrow> Inr (terr, q'))"

lemma minEntry_mem: "minEntry u es \<in> set (u # es)"
  by (induction es arbitrary: u) auto

lemma dequeue_shorter:
  assumes "q \<noteq> []" "dequeue q = (u, q')"
  shows "u \<in> set q \<and> length q = Suc (length q') \<and> set q' \<subseteq> set q"
proof -
  have u: "u = minEntry (hd q) (tl q)" and q': "q' = remove1 u q"
    using assms(2) by (auto simp: dequeue_def Let_def)
  have "u \<in> set (hd q # tl q)" unfolding u by (rule minEntry_mem)
  then have mem: "u \<in> set q" using assms(1) by simp
  then show ?thesis
    unfolding q' using set_remove1_subset [of u q]
    by (simp add: length_remove1) (metis Suc_pred length_pos_if_in_set)
qed

lemma terrStep_decreases:
  assumes "q \<noteq> []" "terrStep m h flux (terr, q) = Inr (terr', q')"
  shows "card ({..<length (adj m)} - dom terr') < card ({..<length (adj m)} - dom terr)
         \<or> (card ({..<length (adj m)} - dom terr') = card ({..<length (adj m)} - dom terr)
            \<and> length q' < length q)"
proof -
  obtain u q0 where d: "dequeue q = (u, q0)" by (cases "dequeue q")
  have len: "length q = Suc (length q0)" using dequeue_shorter [OF assms(1) d] by simp
  show ?thesis
  proof (cases "terr (vx u) \<noteq> None")
    case True
    then have "terr' = terr" "q' = q0" using assms(2) d by (simp_all add: terrStep_def)
    then show ?thesis using len by simp
  next
    case False
    then have inr: "vx u < length (adj m)" and t: "terr' = terr(vx u \<mapsto> city u)"
      using assms(2) d by (auto simp: terrStep_def Let_def split: if_splits sum.splits)
    have "{..<length (adj m)} - dom terr' \<subset> {..<length (adj m)} - dom terr"
      using False inr unfolding t by auto
    then show ?thesis by (simp add: psubset_card_mono)
  qed
qed

function terrLoop :: "mesh \<Rightarrow> real list \<Rightarrow> real list \<Rightarrow> territory \<times> entry list \<Rightarrow> error + territory" where
  "terrLoop m h flux (terr, queue) =
     (if queue = [] then Inr terr
      else case terrStep m h flux (terr, queue) of
        Inl e \<Rightarrow> Inl e
      | Inr s \<Rightarrow> terrLoop m h flux s)"
  by pat_completeness auto
termination
proof (relation "measures [\<lambda>(m, h, flux, terr, queue). card ({..<length (adj m)} - dom terr),
                           \<lambda>(m, h, flux, terr, queue). length queue]", goal_cases)
  case 1
  show ?case by simp
next
  case (2 m h flux terr queue s)
  obtain terr' q' where s: "s = (terr', q')" by (cases s)
  show ?case
    using terrStep_decreases [OF 2(1), of m h flux terr terr' q'] 2(2) unfolding s
    by auto
qed

text \<open>
  \<open>getTerritories\<close>: \<open>nterrs\<close> is clamped to the number of cities, \<open>getFlux\<close> runs
  first (its \<open>downhill\<close> reads the neighbour list of every index of the height map and
  throws where the mesh has none).
\<close>

definition getTerritories :: "mesh \<Rightarrow> real list \<Rightarrow> nat list \<Rightarrow> nat \<Rightarrow> error + territory" where
  "getTerritories m h cities nterrs =
     (let n = (if nterrs > length cities then length cities else nterrs) in
      if length h > length (adj m) then Inl TypeError
      else
        let flux = getFlux m h in
        case seed m h flux (take n cities) (Map.empty, []) of
          Inl e \<Rightarrow> Inl e
        | Inr s \<Rightarrow> terrLoop m h flux s)"

section \<open>Example inputs\<close>

text \<open>
  The diagram of the two sites \<open>(1/2, -1/2)\<close> and \<open>(-1/2, -1/2)\<close> in a map of
  width and height 2: the edge between the two cells runs from \<open>(0, -1)\<close> to
  \<open>(0, 1)\<close>, and six border edges close the two cells.
\<close>

definition twoSiteEdges :: "vedge option list" where
  "twoSiteEdges =
     [Some \<lparr>end0 = (0, -1), end1 = (0, 1), left = (-1/2, -1/2), right = Some (1/2, -1/2)\<rparr>,
      Some \<lparr>end0 = (0, -1), end1 = (1, -1), left = (1/2, -1/2), right = None\<rparr>,
      Some \<lparr>end0 = (1, -1), end1 = (1, 1), left = (1/2, -1/2), right = None\<rparr>,
      Some \<lparr>end0 = (1, 1), end1 = (0, 1), left = (1/2, -1/2), right = None\<rparr>,
      Some \<lparr>end0 = (0, 1), end1 = (-1, 1), left = (-1/2, -1/2), right = None\<rparr>,
      Some \<lparr>end0 = (-1, 1), end1 = (-1, -1), left = (-1/2, -1/2), right = None\<rparr>,
      Some \<lparr>end0 = (-1, -1), end1 = (0, -1), left = (-1/2, -1/2), right = None\<rparr>]"

definition twoSiteMesh :: mesh where
  "twoSiteMesh = makeMesh [(1/2, -1/2), (-1/2, -1/2)] \<lparr>width = 2, height = 2\<rparr> twoSiteEdges"

text \<open>The mesh of a diagram without edges, on an extent without width or height.\<close>

definition emptyMesh :: mesh where
  "emptyMesh =
     \<lparr>pts = [], vxs = [], adj = [], tris = [], edges = [],
      extent = \<lparr>width = 0, height = 0\<rparr>\<rparr>"

section \<open>Quantities used in the statements\<close>

text \<open>
  The flux drained at the boundary vertices, the flux that ends in the local minima
  (the vertices that \<open>downhill\<close> marks \<open>-1\<close>), and, for a set \<open>U\<close> of vertices
  that still have to pass their flux on, the flux held by \<open>U\<close> and by the vertices
  without downhill vertex.
\<close>

definition drained :: "mesh \<Rightarrow> real list \<Rightarrow> real" where
  "drained m flux = (\<Sum>i\<leftarrow>[0..<length flux]. if isedge m i then flux ! i else 0)"

definition pooled :: "mesh \<Rightarrow> real list \<Rightarrow> real list \<Rightarrow> real" where
  "pooled m h flux = (\<Sum>i\<leftarrow>[0..<length flux]. if downhill m h ! i = - 1 then flux ! i else 0)"

definition held :: "int list \<Rightarrow> nat set \<Rightarrow> real list \<Rightarrow> real" where
  "held dh U flux = (\<Sum>i<length flux. if i \<in> U \<or> dh ! i < 0 then flux ! i else 0)"

text \<open>
  The diagram of the three sites \<open>(3/10, 2/5)\<close>, \<open>(-3/10, 2/5)\<close> and
  \<open>(0, -1/2)\<close> in a map of width and height 2. The three cells meet at the origin,
  the only vertex that is not near the edge; the three edges from there end on the
  border, and seven border edges close the cells.
\<close>

definition threeSiteEdges :: "vedge option list" where
  "threeSiteEdges =
     [Some \<lparr>end0 = (0, 0), end1 = (0, 1), left = (-3/10, 2/5), right = Some (3/10, 2/5)\<rparr>,
      Some \<lparr>end0 = (0, 0), end1 = (1, -1/3), left = (3/10, 2/5), right = Some (0, -1/2)\<rparr>,
      Some \<lparr>end0 = (0, 0), end1 = (-1, -1/3), left = (0, -1/2), right = Some (-3/10, 2/5)\<rparr>,
      Some \<lparr>end0 = (0, 1), end1 = (1, 1), left = (3/10, 2/5), right = None\<rparr>,
      Some \<lparr>end0 = (1, 1), end1 = (1, -1/3), left = (3/10, 2/5), right = None\<rparr>,
      Some \<lparr>end0 = (1, -1/3), end1 = (1, -1), left = (0, -1/2), right = None\<rparr>,
      Some \<lparr>end0 = (1, -1), end1 = (-1, -1), left = (0, -1/2), right = None\<rparr>,
      Some \<lparr>end0 = (-1, -1), end1 = (-1, -1/3), left = (0, -1/2), right = None\<rparr>,
      Some \<lparr>end0 = (-1, -1/3), end1 = (-1, 1), left = (-3/10, 2/5), right = None\<rparr>,
      Some \<lparr>end0 = (-1, 1), end1 = (0, 1), left = (-3/10, 2/5), right = None\<rparr>]"

definition threeSiteMesh :: mesh where
  "threeSiteMesh =
     makeMesh [(3/10, 2/5), (-3/10, 2/5), (0, -1/2)] \<lparr>width = 2, height = 2\<rparr> threeSiteEdges"


text \<open>A valley on that mesh: the origin drains into vertex 3, which lies below sea level.\<close>

definition valley :: "real list" where
  "valley = [1, 2, 2, - 1, 2, 2, 2, 2]"

text \<open>
  The two assignments of the inner loop of \<open>fillSinks\<close>, as a relation between the
  filled heights before and after: vertex \<open>i\<close> is set to its own height because
  a neighbour lies low enough, or it is lowered to just above a neighbour.
\<close>

inductive fillMove :: "mesh \<Rightarrow> real list \<Rightarrow> real \<Rightarrow> real list \<Rightarrow> real list \<Rightarrow> bool"
  for m :: mesh and h :: "real list" and eps :: real where
  snap: "i < length h \<Longrightarrow> nb \<in> set (neighbours m i) \<Longrightarrow> newh ! i \<noteq> h ! i \<Longrightarrow>
         h ! i \<ge> newh ! nb + eps \<Longrightarrow> fillMove m h eps newh (newh[i := h ! i])"
| lower: "i < length h \<Longrightarrow> nb \<in> set (neighbours m i) \<Longrightarrow> newh ! i > newh ! nb + eps \<Longrightarrow>
         newh ! nb + eps > h ! i \<Longrightarrow> fillMove m h eps newh (newh[i := newh ! nb + eps])"

text \<open>
  The values that a filled height can take: a height of the map or the start value,
  plus a bounded number of steps of \<open>eps\<close>. \<open>settled\<close> says that every filled
  height is one of them, \<open>rank\<close> counts, over the vertices that are not at their
  own height, the values below the filled height.
\<close>

definition levels :: "real list \<Rightarrow> real \<Rightarrow> real set" where
  "levels h eps =
     (\<lambda>(b, k). b + real k * eps) `
       (insert infinity (set h) \<times> {..nat \<lceil>(Max (insert infinity (set h)) - Min (insert infinity (set h))) / \<bar>eps\<bar>\<rceil>})"

definition settled :: "real list \<Rightarrow> real \<Rightarrow> real list \<Rightarrow> bool" where
  "settled h eps newh \<longleftrightarrow>
     length newh = length h \<and>
     (\<forall>i < length h. newh ! i \<in> levels h eps \<and> newh ! i \<le> Max (insert infinity (set h)))"

definition rank :: "real list \<Rightarrow> real \<Rightarrow> real list \<Rightarrow> nat" where
  "rank h eps newh =
     (\<Sum>i < length h. if newh ! i = h ! i then 0 else 1 + card {s \<in> levels h eps. s < newh ! i})"

text \<open>
  The loop of \<open>fillSinks\<close> cut off after \<open>k\<close> passes (\<open>None\<close> when the
  passes are used up), to state how many passes the loop can take.
\<close>

fun fillLoopN :: "nat \<Rightarrow> mesh \<Rightarrow> real list \<Rightarrow> real \<Rightarrow> real list \<Rightarrow> real list option" where
  "fillLoopN 0 m h eps newh = None"
| "fillLoopN (Suc k) m h eps newh =
     (case sweep m h eps [0..<length h] (newh, False) of
        (newh', changed) \<Rightarrow> if \<not> changed then Some newh' else fillLoopN k m h eps newh')"

text \<open>
  What holds of the filled heights all along: no vertex lies below its height, a
  vertex near the edge lies at its height, and a vertex not near the edge that has
  left the start value has a neighbour at least \<open>eps\<close> below it.
\<close>

definition rising :: "mesh \<Rightarrow> real list \<Rightarrow> real \<Rightarrow> real list \<Rightarrow> bool" where
  "rising m h eps newh \<longleftrightarrow>
     length newh = length h \<and>
     (\<forall>i < length h.
        h ! i \<le> newh ! i \<and>
        (isnearedge m i \<longrightarrow> newh ! i = h ! i) \<and>
        (\<not> isnearedge m i \<and> newh ! i < infinity \<longrightarrow>
           (\<exists>nb \<in> set (neighbours m i). newh ! nb + eps \<le> newh ! i)))"

text \<open>A pit on the three-site mesh: the origin lies below all its neighbours.\<close>

definition pit :: "real list" where
  "pit = [- 1, 2, 2, 1, 2, 2, 2, 2]"

text \<open>A ridge on the three-site mesh: one high corner, the rest of the map at sea level.\<close>

definition ridge :: "real list" where
  "ridge = [0, 0, 0, 0, 100, 0, 0, 0]"

text \<open>
  The edges of the mesh as a relation, and what holds of the territory map and the
  queue all along a run from the capitals \<open>caps\<close>: every capital owns itself,
  every owner is a capital from which its vertex can be reached along edges, and
  every queued entry is for a vertex of the mesh that the entry's capital reaches.
\<close>

definition reach :: "mesh \<Rightarrow> (nat \<times> nat) set" where
  "reach m = {(u, v). u < length (adj m) \<and> v \<in> set (adj m ! u)}"

definition claimed :: "mesh \<Rightarrow> nat set \<Rightarrow> territory \<times> entry list \<Rightarrow> bool" where
  "claimed m caps s \<longleftrightarrow>
     (\<forall>c \<in> caps. fst s c = Some c) \<and>
     (\<forall>v c. fst s v = Some c \<longrightarrow> c \<in> caps \<and> (c, v) \<in> (reach m)\<^sup>*) \<and>
     (\<forall>e \<in> set (snd s). city e \<in> caps \<and> (city e, vx e) \<in> (reach m)\<^sup>* \<and>
        vx e < length (adj m))"

text \<open>A mesh of two edges that do not meet.\<close>

definition islandMesh :: mesh where
  "islandMesh =
     \<lparr>pts = [], vxs = [(0, 0), (1, 0), (0, 1), (1, 1)],
      adj = [[1], [0], [3], [2]],
      tris = [[(1/2, -1/2)], [(1/2, -1/2)], [(1/2, 3/2)], [(1/2, 3/2)]],
      edges = [(0, 1, (1/2, -1/2), None), (2, 3, (1/2, 3/2), None)],
      extent = \<lparr>width = 4, height = 4\<rparr>\<rparr>"

text \<open>
  What the loop of \<open>makeMesh\<close> keeps true of the arrays it builds: every vertex
  has its entry in \<open>adj\<close> and no other index has one, the entries of \<open>adj\<close> and
  the ids recorded in \<open>vxids\<close> are ids of vertices.
\<close>

definition building :: "builder \<Rightarrow> bool" where
  "building b \<longleftrightarrow>
     length (b_adj b) = length (b_vxs b) \<and>
     (\<forall>nbs \<in> set (b_adj b). \<forall>j \<in> set nbs. j < length (b_vxs b)) \<and>
     (\<forall>p k. b_vxids b p = Some k \<longrightarrow> k < length (b_vxs b))"

text \<open>
  What is asked of the sum: adding a positive \<open>eps\<close> does not lower a number, and
  the sum grows with its first operand. The exact sum and the sum rounded to the
  nearest double both do.
\<close>

definition rounding :: "(real \<Rightarrow> real \<Rightarrow> real) \<Rightarrow> real \<Rightarrow> bool" where
  "rounding fadd eps \<longleftrightarrow>
     (\<forall>x. x \<le> fadd x eps) \<and> (\<forall>x y. x \<le> y \<longrightarrow> fadd x eps \<le> fadd y eps)"

text \<open>
  What holds of the filled heights all along, whatever the sum: no vertex lies below
  its height, a vertex near the edge lies at its height, and a vertex not near the
  edge is at the start value or has a neighbour whose filled height plus \<open>eps\<close>
  does not exceed its own.
\<close>

definition filling :: "(real \<Rightarrow> real \<Rightarrow> real) \<Rightarrow> mesh \<Rightarrow> real list \<Rightarrow> real \<Rightarrow> real list \<Rightarrow> bool" where
  "filling fadd m h eps newh \<longleftrightarrow>
     length newh = length h \<and>
     (\<forall>i < length h.
        h ! i \<le> newh ! i \<and>
        (isnearedge m i \<longrightarrow> newh ! i = h ! i) \<and>
        (\<not> isnearedge m i \<longrightarrow>
           newh ! i = infinity \<or> (\<exists>nb \<in> set (neighbours m i). fadd (newh ! nb) eps \<le> newh ! i)))"

text \<open>
  What the pass that changes nothing has found at every vertex: the filled height is
  the height, or every neighbour's filled height plus \<open>eps\<close> lies above the
  height and not below the filled height.
\<close>

definition at_rest :: "(real \<Rightarrow> real \<Rightarrow> real) \<Rightarrow> mesh \<Rightarrow> real list \<Rightarrow> real \<Rightarrow> real list \<Rightarrow> nat \<Rightarrow> bool" where
  "at_rest fadd m h eps newh i \<longleftrightarrow>
     newh ! i = h ! i \<or>
     (\<forall>nb \<in> set (neighbours m i). h ! i < fadd (newh ! nb) eps \<and> newh ! i \<le> fadd (newh ! nb) eps)"

text \<open>
  A level map on the three-site mesh: the origin and its neighbour 1 at height 1.
  \<open>absorbed\<close> is a sum that drops its second operand, as the sum of doubles does
  with the heights of this map and an \<open>epsilon\<close> of \<open>1e-17\<close>.
\<close>

definition level :: "real list" where
  "level = [1, 1, 2, 2, 2, 2, 2, 2]"

definition absorbed :: "real \<Rightarrow> real \<Rightarrow> real" where
  "absorbed x e = x"

section \<open>Properties of normalize\<close>

lemma d3_min_Some: "h \<noteq> [] \<Longrightarrow> d3_min h = Some (Min (set h))"
proof (induction h)
  case Nil
  then show ?case by simp
next
  case (Cons x xs)
  show ?case
  proof (cases "xs = []")
    case True
    then show ?thesis by simp
  next
    case False
    with Cons show ?thesis by simp
  qed
qed

lemma d3_max_Some: "h \<noteq> [] \<Longrightarrow> d3_max h = Some (Max (set h))"
proof (induction h)
  case Nil
  then show ?case by simp
next
  case (Cons x xs)
  show ?case
  proof (cases "xs = []")
    case True
    then show ?thesis by simp
  next
    case False
    with Cons show ?thesis by simp
  qed
qed

lemma normalize_range:
  assumes "d3_min h = Some lo" "d3_max h = Some hi" "lo < hi" "i < length h"
  shows "\<exists>r. normalize h ! i = Num r \<and> 0 \<le> r \<and> r \<le> 1"
proof -
  have ne: "h \<noteq> []" using assms(4) by auto
  have lo: "lo = Min (set h)" and hi: "hi = Max (set h)"
    using assms(1,2) d3_min_Some [OF ne] d3_max_Some [OF ne] by simp_all
  have mem: "h ! i \<in> set h" using assms(4) by simp
  have "lo \<le> h ! i" "h ! i \<le> hi"
    using mem lo hi by simp_all
  then have "0 \<le> (h ! i - lo) / (hi - lo)" "(h ! i - lo) / (hi - lo) \<le> 1"
    using assms(3) by (simp_all add: divide_le_eq)
  moreover have "normalize h ! i = Num ((h ! i - lo) / (hi - lo))"
    using assms by (simp add: normalize_def js_div_def)
  ultimately show ?thesis by blast
qed

lemma d3_min_replicate: "d3_min (replicate (Suc n) c) = Some c"
  by (induction n) simp_all

lemma d3_max_replicate: "d3_max (replicate (Suc n) c) = Some c"
  by (induction n) simp_all

lemma normalize_constant:
  "normalize (replicate (Suc n) c) = replicate (Suc n) NaN"
  unfolding normalize_def d3_min_replicate d3_max_replicate
  by (simp add: js_div_def map_replicate del: replicate_Suc)

text \<open>
  C6. For a field whose maximum exceeds its minimum the values of \<open>normalize\<close> lie in
  \<open>[0,1]\<close> (lemma \<open>normalize_range\<close>). For a constant field the claim asks for the
  all-zero field; the code divides \<open>0\<close> by \<open>0\<close> at every vertex and returns NaN
  everywhere, here on the constant field \<open>[1, 1, 1]\<close>.
\<close>

theorem normalize_flat_is_NaN:
  "normalize [1, 1, 1] = [NaN, NaN, NaN] \<and> normalize [1, 1, 1] \<noteq> [Num 0, Num 0, Num 0]"
  by (simp add: normalize_def js_div_def)

section \<open>The mesh of the two sites\<close>

lemma twoSiteMesh_eq:
  "twoSiteMesh =
     \<lparr>pts = [(1/2, -1/2), (-1/2, -1/2)],
      vxs = [(0, -1), (0, 1), (1, -1), (1, 1), (-1, 1), (-1, -1)],
      adj = [[1, 2, 5], [0, 3, 4], [0, 3], [2, 1], [1, 5], [4, 0]],
      tris = [[(-1/2, -1/2), (1/2, -1/2)], [(-1/2, -1/2), (1/2, -1/2)], [(1/2, -1/2)],
              [(1/2, -1/2)], [(-1/2, -1/2)], [(-1/2, -1/2)]],
      edges = [(0, 1, (-1/2, -1/2), Some (1/2, -1/2)), (0, 2, (1/2, -1/2), None),
               (2, 3, (1/2, -1/2), None), (3, 1, (1/2, -1/2), None),
               (1, 4, (-1/2, -1/2), None), (4, 5, (-1/2, -1/2), None),
               (5, 0, (-1/2, -1/2), None)],
      extent = \<lparr>width = 2, height = 2\<rparr>\<rparr>"
  by (simp add: twoSiteMesh_def twoSiteEdges_def makeMesh_def vertexId_def pushAt_def
      setAt_def entryAt_def noteSites_def)

section \<open>Properties of trislope\<close>

text \<open>
  C7, as stated: the samples are the tessellation-cell origin points of the vertex
  (\<open>tris\<close>), and a vertex that does not have exactly three of them gets the zero
  gradient. The code never reads \<open>tris\<close>: it tests the number of neighbours. The
  border vertex \<open>0\<close> of \<open>twoSiteMesh\<close> touches two cells and has three
  neighbours, and its gradient on the heights \<open>[1, 1, 2, 2, 0, 0]\<close> (the plane
  \<open>x + 1\<close>) is \<open>(1, 0)\<close>.
\<close>

theorem trislope_uses_neighbours_not_cells:
  "length (tris twoSiteMesh ! 0) \<noteq> 3 \<and>
   trislope twoSiteMesh [1, 1, 2, 2, 0, 0] 0 = (Num 1, Num 0) \<and>
   trislope twoSiteMesh [1, 1, 2, 2, 0, 0] 0 \<noteq> (Num 0, Num 0)"
  by (simp add: twoSiteMesh_eq trislope_def neighbours_def js_div_def)

text \<open>
  C7, amended: the samples are the three adjacent mesh vertices. With \<open>(x1, y1)\<close>,
  \<open>(x2, y2)\<close> the position differences and \<open>h1\<close>, \<open>h2\<close> the height differences
  of the second and third neighbour against the first, \<open>trislope\<close> returns the zero
  gradient for a vertex whose neighbour count is not 3, and for a vertex with three
  neighbours and a non-zero determinant the one solution \<open>(gx, gy)\<close> of
  \<open>x1 gx + y1 gy = h1\<close>, \<open>x2 gx + y2 gy = h2\<close>.
\<close>

theorem trislope_cramer:
  fixes m :: mesh and h :: "real list" and i :: nat
  defines "nbs \<equiv> neighbours m i"
  defines "x1 \<equiv> fst (vxs m ! (nbs ! 1)) - fst (vxs m ! (nbs ! 0))"
  defines "x2 \<equiv> fst (vxs m ! (nbs ! 2)) - fst (vxs m ! (nbs ! 0))"
  defines "y1 \<equiv> snd (vxs m ! (nbs ! 1)) - snd (vxs m ! (nbs ! 0))"
  defines "y2 \<equiv> snd (vxs m ! (nbs ! 2)) - snd (vxs m ! (nbs ! 0))"
  defines "h1 \<equiv> h ! (nbs ! 1) - h ! (nbs ! 0)"
  defines "h2 \<equiv> h ! (nbs ! 2) - h ! (nbs ! 0)"
  shows "(length nbs \<noteq> 3 \<longrightarrow> trislope m h i = (Num 0, Num 0)) \<and>
         (length nbs = 3 \<and> x1 * y2 - x2 * y1 \<noteq> 0 \<longrightarrow>
            (\<exists>gx gy. trislope m h i = (Num gx, Num gy) \<and>
               x1 * gx + y1 * gy = h1 \<and> x2 * gx + y2 * gy = h2 \<and>
               (\<forall>a b. x1 * a + y1 * b = h1 \<and> x2 * a + y2 * b = h2 \<longrightarrow> a = gx \<and> b = gy)))"
proof (intro conjI impI)
  assume "length nbs \<noteq> 3"
  then show "trislope m h i = (Num 0, Num 0)"
    by (simp add: trislope_def nbs_def)
next
  assume a: "length nbs = 3 \<and> x1 * y2 - x2 * y1 \<noteq> 0"
  define det where "det = x1 * y2 - x2 * y1"
  define gx where "gx = (y2 * h1 - y1 * h2) / det"
  define gy where "gy = (- x2 * h1 + x1 * h2) / det"
  have det: "det \<noteq> 0" using a by (simp add: det_def)
  have t: "trislope m h i = (Num gx, Num gy)"
    using a det unfolding trislope_def Let_def js_div_def gx_def gy_def det_def
      x1_def x2_def y1_def y2_def h1_def h2_def nbs_def
    by simp
  have gx': "det * gx = y2 * h1 - y1 * h2" and gy': "det * gy = - x2 * h1 + x1 * h2"
    using det by (simp_all add: gx_def gy_def)
  have "det * (x1 * gx + y1 * gy) = x1 * (det * gx) + y1 * (det * gy)"
    by (simp add: algebra_simps)
  also have "\<dots> = x1 * (y2 * h1 - y1 * h2) + y1 * (- x2 * h1 + x1 * h2)"
    by (simp only: gx' gy')
  also have "\<dots> = det * h1"
    by (simp add: det_def algebra_simps)
  finally have e1: "x1 * gx + y1 * gy = h1" using det by simp
  have "det * (x2 * gx + y2 * gy) = x2 * (det * gx) + y2 * (det * gy)"
    by (simp add: algebra_simps)
  also have "\<dots> = x2 * (y2 * h1 - y1 * h2) + y2 * (- x2 * h1 + x1 * h2)"
    by (simp only: gx' gy')
  also have "\<dots> = det * h2"
    by (simp add: det_def algebra_simps)
  finally have e2: "x2 * gx + y2 * gy = h2" using det by simp
  have u: "a = gx \<and> b = gy" if s: "x1 * a + y1 * b = h1 \<and> x2 * a + y2 * b = h2" for a b
  proof -
    have "det * a = y2 * (x1 * a + y1 * b) - y1 * (x2 * a + y2 * b)"
      unfolding det_def by (simp add: algebra_simps)
    then have "det * a = det * gx" using s gx' by simp
    moreover have "det * b = - x2 * (x1 * a + y1 * b) + x1 * (x2 * a + y2 * b)"
      unfolding det_def by (simp add: algebra_simps)
    then have "det * b = det * gy" using s gy' by simp
    ultimately show ?thesis using det by simp
  qed
  show "\<exists>gx gy. trislope m h i = (Num gx, Num gy) \<and>
               x1 * gx + y1 * gy = h1 \<and> x2 * gx + y2 * gy = h2 \<and>
               (\<forall>a b. x1 * a + y1 * b = h1 \<and> x2 * a + y2 * b = h2 \<longrightarrow> a = gx \<and> b = gy)"
    using t e1 e2 u by blast
qed

theorem trislope_cramer_witness:
  "length (neighbours twoSiteMesh 0) = 3 \<and>
   (\<exists>gx gy. trislope twoSiteMesh [1, 1, 2, 2, 0, 0] 0 = (Num gx, Num gy) \<and>
      1 * gx + (- 2) * gy = 1 \<and> (- 1) * gx + (- 2) * gy = - 1) \<and>
   length (neighbours twoSiteMesh 2) \<noteq> 3 \<and>
   trislope twoSiteMesh [1, 1, 2, 2, 0, 0] 2 = (Num 0, Num 0)"
  using trislope_cramer [of twoSiteMesh 0 "[1, 1, 2, 2, 0, 0]"]
    trislope_cramer [of twoSiteMesh 2 "[1, 1, 2, 2, 0, 0]"]
  by (simp add: twoSiteMesh_eq neighbours_def) blast

section \<open>Properties of makeMesh and add\<close>

lemma js_plus_NaN: "js_plus NaN x = NaN"
  by (cases x) simp_all

lemma fold_plus_NaN: "fold (\<lambda>g acc. js_plus acc (valueAt g i)) gs NaN = NaN"
  by (induction gs) (simp_all add: js_plus_NaN)

lemma fold_plus_Num:
  "fold (\<lambda>g acc. js_plus acc (valueAt g i)) gs (Num a) =
     (if \<forall>g \<in> set gs. i < length (fvals g) then Num (a + (\<Sum>g\<leftarrow>gs. fvals g ! i)) else NaN)"
proof (induction gs arbitrary: a)
  case Nil
  then show ?case by simp
next
  case (Cons g gs)
  show ?case
  proof (cases "i < length (fvals g)")
    case True
    then show ?thesis using Cons [of "a + fvals g ! i"] by (simp add: valueAt_def add.assoc)
  next
    case False
    then have "valueAt g i = None" by (simp add: valueAt_def)
    then show ?thesis using False by (simp add: fold_plus_NaN)
  qed
qed

subsection \<open>makeMesh builds a mesh from every diagram\<close>

lemma length_setAt: "length (setAt xss i xs) = max (length xss) (Suc i)"
  by (auto simp: setAt_def)

lemma set_setAt: "set (setAt xss i xs) \<subseteq> insert xs (insert [] (set xss))"
  by (auto simp: setAt_def dest: in_set_replicate [THEN iffD1] set_update_subset_insert [THEN subsetD])

lemma set_entryAt: "set (entryAt xss i) \<subseteq> \<Union> (set ` set xss)"
  using nth_mem by (fastforce simp: entryAt_def)

lemma vertexId_range:
  assumes v: "vertexId p (vs, ids) = (k, vs', ids')"
    and r: "\<forall>q j. ids q = Some j \<longrightarrow> j < length vs"
  shows "k < length vs' \<and> (\<forall>q j. ids' q = Some j \<longrightarrow> j < length vs') \<and>
         (length vs' = length vs \<or> length vs' = Suc (length vs) \<and> k = length vs)"
proof (cases "ids p")
  case None
  then have e: "k = length vs" "vs' = vs @ [p]" "ids' = ids(p \<mapsto> length vs)"
    using v by (auto simp: vertexId_def)
  have "j < length vs'" if "ids' q = Some j" for q j
  proof (cases "q = p")
    case True
    then show ?thesis using that e by simp
  next
    case False
    then have "ids q = Some j" using that e by simp
    then have "j < length vs" using r by blast
    then show ?thesis using e by simp
  qed
  then show ?thesis using e by simp
next
  case (Some j)
  then have e: "k = j" "vs' = vs" "ids' = ids" using v by (auto simp: vertexId_def)
  then show ?thesis using r Some by blast
qed

lemma pushAt_range:
  assumes "\<forall>nbs \<in> set xss. \<forall>j \<in> set nbs. j < n" "x < n"
  shows "\<forall>nbs \<in> set (pushAt xss i x). \<forall>j \<in> set nbs. j < n"
proof (intro ballI)
  fix nbs j assume nbs: "nbs \<in> set (pushAt xss i x)" and j: "j \<in> set nbs"
  have "nbs = entryAt xss i @ [x] \<or> nbs = [] \<or> nbs \<in> set xss"
    using nbs set_setAt [of xss i "entryAt xss i @ [x]"] by (auto simp: pushAt_def)
  then show "j < n"
    using j assms set_entryAt [of xss i] by auto
qed

lemma length_pushAt: "length (pushAt xss i x) = max (length xss) (Suc i)"
  by (simp add: pushAt_def length_setAt)

lemma addEdge_building:
  assumes "building b"
  shows "building (addEdge e b)"
proof (cases e)
  case None
  then show ?thesis using assms by simp
next
  case (Some ed)
  let ?L = "length (b_vxs b)"
  obtain e0 vxs0 ids0 where v0: "vertexId (end0 ed) (b_vxs b, b_vxids b) = (e0, vxs0, ids0)"
    by (cases "vertexId (end0 ed) (b_vxs b, b_vxids b)")
  obtain e1 vxs1 ids1 where v1: "vertexId (end1 ed) (vxs0, ids0) = (e1, vxs1, ids1)"
    by (cases "vertexId (end1 ed) (vxs0, ids0)")
  have ids: "\<forall>p k. b_vxids b p = Some k \<longrightarrow> k < ?L" using assms by (simp add: building_def)
  have s0: "e0 < length vxs0 \<and> (\<forall>p k. ids0 p = Some k \<longrightarrow> k < length vxs0) \<and>
            (length vxs0 = ?L \<or> length vxs0 = Suc ?L \<and> e0 = ?L)"
    by (rule vertexId_range [OF v0 ids])
  have s1: "e1 < length vxs1 \<and> (\<forall>p k. ids1 p = Some k \<longrightarrow> k < length vxs1) \<and>
            (length vxs1 = length vxs0 \<or> length vxs1 = Suc (length vxs0) \<and> e1 = length vxs0)"
    by (rule vertexId_range [OF v1]) (use s0 in blast)
  have b': "addEdge e b =
        \<lparr>b_vxs = vxs1, b_vxids = ids1,
         b_adj = pushAt (pushAt (b_adj b) e0 e1) e1 e0,
         b_edges = b_edges b @ [(e0, e1, left ed, right ed)],
         b_tris = noteSites (noteSites (b_tris b) e0 (left ed) (right ed)) e1 (left ed) (right ed)\<rparr>"
    using Some v0 v1 by simp
  have la: "length (b_adj b) = ?L" using assms by (simp add: building_def)
  have len: "length (pushAt (pushAt (b_adj b) e0 e1) e1 e0) = length vxs1"
    using s0 s1 la by (auto simp: length_pushAt)
  have e0': "e0 < length vxs1" using s0 s1 by auto
  have old: "\<forall>nbs \<in> set (b_adj b). \<forall>j \<in> set nbs. j < length vxs1"
    using assms s0 s1 by (fastforce simp: building_def)
  have rng: "\<forall>nbs \<in> set (pushAt (pushAt (b_adj b) e0 e1) e1 e0). \<forall>j \<in> set nbs. j < length vxs1"
    using pushAt_range [OF pushAt_range [OF old] e0'] s1 by blast
  show ?thesis
    unfolding b' building_def using len rng s1 by simp
qed

lemma fold_addEdge_building: "building b \<Longrightarrow> building (fold addEdge es b)"
  by (induction es arbitrary: b) (simp_all add: addEdge_building)

lemma makeMesh_ok: "mesh_ok (makeMesh ps ext es)"
proof -
  have "building \<lparr>b_vxs = [], b_vxids = Map.empty, b_adj = [], b_edges = [], b_tris = []\<rparr>"
    by (simp add: building_def)
  then have "building (fold addEdge es \<lparr>b_vxs = [], b_vxids = Map.empty, b_adj = [], b_edges = [], b_tris = []\<rparr>)"
    by (rule fold_addEdge_building)
  then show ?thesis by (simp add: makeMesh_def mesh_ok_def building_def Let_def)
qed

lemma edges_fold_addEdge:
  "length (b_edges (fold addEdge es b)) = length (b_edges b) + length (filter (\<lambda>e. e \<noteq> None) es)"
proof (induction es arbitrary: b)
  case Nil
  then show ?case by simp
next
  case (Cons e es)
  show ?case
  proof (cases e)
    case None
    then show ?thesis using Cons [of b] by simp
  next
    case (Some ed)
    have "length (b_edges (addEdge (Some ed) b)) = Suc (length (b_edges b))"
      by (simp split: prod.splits)
    then show ?thesis using Cons [of "addEdge (Some ed) b"] Some by simp
  qed
qed

lemma makeMesh_edges:
  "length (edges (makeMesh ps ext es)) = length (filter (\<lambda>e. e \<noteq> None) es)"
  by (simp add: makeMesh_def Let_def edges_fold_addEdge)

subsection \<open>No configuration error\<close>

text \<open>
  C9, as stated: a mesh built on a degenerate extent or from fewer than 4 points, and
  the sum of operands of different meshes and lengths, fail with an error. Neither
  function has a check. \<open>makeMesh\<close> on no point and an extent of width and height 0
  (a diagram without edges) returns the empty mesh, and \<open>add\<close> of a map of six
  values on \<open>twoSiteMesh\<close> and a map of one value on the empty mesh returns a map
  on \<open>twoSiteMesh\<close> that is NaN from the second vertex on.
\<close>

theorem no_configuration_error:
  "makeMesh [] \<lparr>width = 0, height = 0\<rparr> [] = emptyMesh \<and>
   add [\<lparr>fmesh = twoSiteMesh, fvals = [1, 2, 3, 4, 5, 6]\<rparr>, \<lparr>fmesh = emptyMesh, fvals = [10]\<rparr>]
     = Inr (twoSiteMesh, [Num 11, NaN, NaN, NaN, NaN, NaN])"
  by (simp add: makeMesh_def emptyMesh_def add_def twoSiteMesh_eq valueAt_def upt_rec)

text \<open>
  C9, amended: nothing is checked and no configuration error is raised.
  \<open>makeMesh\<close> returns, for every list of points, every extent and every diagram, a
  mesh over these points and this extent that has one edge for each edge the diagram
  defines, as many neighbour lists as vertices, and only vertices of the mesh in
  them; for a diagram without edges it is the mesh without vertices, whatever the
  points and the extent. \<open>add\<close> fails only when it is called without operand
  (reading the length of the missing first operand); otherwise it returns a map on
  the mesh of the first operand, as long as the longer of that operand (\<open>n\<close>
  values) and the mesh (\<open>z\<close> vertices). Its value at an index below \<open>n\<close> is the
  sum of the operands' values there when the index is below \<open>z\<close> and every operand
  has a value there, and NaN otherwise (the mesh has no such vertex, or some operand
  is too short); its value at an index from \<open>n\<close> on is 0, whatever the other
  operands hold there.
\<close>

theorem add_sums_without_check:
  "makeMesh ps ext [] = \<lparr>pts = ps, vxs = [], adj = [], tris = [], edges = [], extent = ext\<rparr> \<and>
   pts (makeMesh ps ext es) = ps \<and> extent (makeMesh ps ext es) = ext \<and>
   mesh_ok (makeMesh ps ext es) \<and>
   length (edges (makeMesh ps ext es)) = length (filter (\<lambda>e. e \<noteq> None) es) \<and>
   add [] = Inl TypeError \<and>
   (\<exists>vals. add (f # fs) = Inr (fmesh f, vals) \<and>
      length vals = max (length (fvals f)) (length (vxs (fmesh f))) \<and>
      (\<forall>i < max (length (fvals f)) (length (vxs (fmesh f))).
         vals ! i =
           (if i < length (fvals f)
            then if i < length (vxs (fmesh f)) \<and> (\<forall>g \<in> set (f # fs). i < length (fvals g))
                 then Num (\<Sum>g\<leftarrow>f # fs. fvals g ! i) else NaN
            else Num 0)))"
proof -
  define n where "n = length (fvals f)"
  define z where "z = length (vxs (fmesh f))"
  define vals where "vals = map (\<lambda>i. if i < n
         then fold (\<lambda>g acc. js_plus acc (valueAt g i)) (f # fs) (if i < z then Num 0 else NaN)
         else (if i < z then Num 0 else NaN)) [0..<max n z]"
  have a: "add (f # fs) = Inr (fmesh f, vals)"
    by (simp add: add_def vals_def n_def z_def Let_def)
  have l: "length vals = max n z" by (simp add: vals_def)
  have v: "vals ! i =
           (if i < n
            then if i < z \<and> (\<forall>g \<in> set (f # fs). i < length (fvals g))
                 then Num (\<Sum>g\<leftarrow>f # fs. fvals g ! i) else NaN
            else Num 0)"
    if i: "i < max n z" for i
  proof (cases "i < n")
    case True
    show ?thesis
    proof (cases "i < z")
      case z: True
      have "vals ! i = fold (\<lambda>g acc. js_plus acc (valueAt g i)) (f # fs) (Num 0)"
        using i True z by (simp add: vals_def)
      then show ?thesis using True z by (simp only: fold_plus_Num) simp
    next
      case z: False
      have "vals ! i = fold (\<lambda>g acc. js_plus acc (valueAt g i)) (f # fs) NaN"
        using i True z by (simp add: vals_def)
      then show ?thesis using True z by (simp only: fold_plus_NaN) simp
    qed
  next
    case False
    then have "i < z" using i by simp
    then show ?thesis using i False by (simp add: vals_def)
  qed
  have e: "makeMesh ps ext [] = \<lparr>pts = ps, vxs = [], adj = [], tris = [], edges = [], extent = ext\<rparr>"
    by (simp add: makeMesh_def)
  have p: "pts (makeMesh ps ext es) = ps" "extent (makeMesh ps ext es) = ext"
    by (simp_all add: makeMesh_def Let_def)
  have t: "add [] = Inl TypeError" by (simp add: add_def)
  have x: "\<exists>vals. add (f # fs) = Inr (fmesh f, vals) \<and>
      length vals = max (length (fvals f)) (length (vxs (fmesh f))) \<and>
      (\<forall>i < max (length (fvals f)) (length (vxs (fmesh f))).
         vals ! i =
           (if i < length (fvals f)
            then if i < length (vxs (fmesh f)) \<and> (\<forall>g \<in> set (f # fs). i < length (fvals g))
                 then Num (\<Sum>g\<leftarrow>f # fs. fvals g ! i) else NaN
            else Num 0))"
    using a l v unfolding n_def z_def by blast
  show ?thesis
    by (intro conjI e p makeMesh_ok makeMesh_edges t x)
qed

theorem add_sums_without_check_witness:
  "mesh_ok (makeMesh [] \<lparr>width = 0, height = 0\<rparr> twoSiteEdges) \<and>
   length (edges (makeMesh [] \<lparr>width = 0, height = 0\<rparr> twoSiteEdges)) = 7 \<and>
   (\<exists>vals. add [\<lparr>fmesh = twoSiteMesh, fvals = [1, 2]\<rparr>,
                  \<lparr>fmesh = emptyMesh, fvals = [10]\<rparr>] = Inr (twoSiteMesh, vals) \<and>
      length vals = 6 \<and> vals ! 0 = Num 11 \<and> vals ! 1 = NaN \<and> vals ! 2 = Num 0 \<and>
      vals ! 5 = Num 0) \<and>
   (\<exists>vals. add [\<lparr>fmesh = emptyMesh, fvals = [1, 2]\<rparr>] = Inr (emptyMesh, vals) \<and>
      length vals = 2 \<and> vals ! 0 = NaN \<and> vals ! 1 = NaN)"
proof -
  let ?f = "\<lparr>fmesh = twoSiteMesh, fvals = [1, 2]\<rparr>"
  let ?g = "\<lparr>fmesh = emptyMesh, fvals = [10]\<rparr>"
  let ?k = "\<lparr>fmesh = emptyMesh, fvals = [1, 2]\<rparr>"
  let ?x = "\<lparr>width = 0, height = 0\<rparr>"
  have lv: "length (vxs twoSiteMesh) = 6" by (simp add: twoSiteMesh_eq)
  have le: "length (vxs emptyMesh) = 0" by (simp add: emptyMesh_def)
  have m: "mesh_ok (makeMesh [] ?x twoSiteEdges)"
    and c: "length (edges (makeMesh [] ?x twoSiteEdges)) = length (filter (\<lambda>e. e \<noteq> None) twoSiteEdges)"
    using add_sums_without_check [where f = ?f and fs = "[?g]" and ps = "[]" and ext = ?x
        and es = twoSiteEdges]
    by blast+
  obtain vals where a: "add [?f, ?g] = Inr (fmesh ?f, vals)"
    and l: "length vals = max (length (fvals ?f)) (length (vxs (fmesh ?f)))"
    and v: "\<forall>i < max (length (fvals ?f)) (length (vxs (fmesh ?f))).
         vals ! i =
           (if i < length (fvals ?f)
            then if i < length (vxs (fmesh ?f)) \<and> (\<forall>g \<in> set [?f, ?g]. i < length (fvals g))
                 then Num (\<Sum>g\<leftarrow>[?f, ?g]. fvals g ! i) else NaN
            else Num 0)"
    using add_sums_without_check [where f = ?f and fs = "[?g]" and ps = "[]" and ext = ?x
        and es = "[]"]
    by blast
  obtain vals' where a': "add [?k] = Inr (fmesh ?k, vals')"
    and l': "length vals' = max (length (fvals ?k)) (length (vxs (fmesh ?k)))"
    and v': "\<forall>i < max (length (fvals ?k)) (length (vxs (fmesh ?k))).
         vals' ! i =
           (if i < length (fvals ?k)
            then if i < length (vxs (fmesh ?k)) \<and> (\<forall>g \<in> set [?k]. i < length (fvals g))
                 then Num (\<Sum>g\<leftarrow>[?k]. fvals g ! i) else NaN
            else Num 0)"
    using add_sums_without_check [where f = ?k and fs = "[]" and ps = "[]" and ext = ?x
        and es = "[]"]
    by blast
  have "vals ! 0 = Num 11" using v [rule_format, of 0] by (simp add: lv)
  moreover have "vals ! 1 = NaN" using v [rule_format, of 1] by (simp add: lv)
  moreover have "vals ! 2 = Num 0" using v [rule_format, of 2] by (simp add: lv)
  moreover have "vals ! 5 = Num 0" using v [rule_format, of 5] by (simp add: lv)
  ultimately have one: "\<exists>vals. add [?f, ?g] = Inr (twoSiteMesh, vals) \<and>
      length vals = 6 \<and> vals ! 0 = Num 11 \<and> vals ! 1 = NaN \<and> vals ! 2 = Num 0 \<and>
      vals ! 5 = Num 0"
    using a l by (simp add: lv)
  have "vals' ! 0 = NaN" using v' [rule_format, of 0] by (simp add: le)
  moreover have "vals' ! 1 = NaN" using v' [rule_format, of 1] by (simp add: le)
  ultimately have two: "\<exists>vals. add [?k] = Inr (emptyMesh, vals) \<and>
      length vals = 2 \<and> vals ! 0 = NaN \<and> vals ! 1 = NaN"
    using a' l' by (simp add: le)
  have c7: "length (edges (makeMesh [] ?x twoSiteEdges)) = 7"
    using c by (simp add: twoSiteEdges_def)
  show ?thesis by (intro conjI m c7 one two)
qed

section \<open>Properties of downhill and getFlux\<close>

subsection \<open>downhill\<close>

lemma lowest_cases:
  assumes "lowest h nbs (best, besth) = (b, bh)"
    and "best = - 1 \<and> besth = hi0 \<or> 0 \<le> best \<and> nat best \<in> S \<and> besth = h ! nat best \<and> besth < hi0"
  shows "b = - 1 \<and> bh = hi0 \<or> 0 \<le> b \<and> nat b \<in> S \<union> set nbs \<and> bh = h ! nat b \<and> bh < hi0"
  using assms
proof (induction nbs arbitrary: best besth S)
  case Nil
  then show ?case by simp
next
  case (Cons nb nbs)
  show ?case
  proof (cases "h ! nb < besth")
    case True
    then have l: "lowest h nbs (int nb, h ! nb) = (b, bh)" using Cons.prems(1) by simp
    have "h ! nb < hi0" using True Cons.prems(2) by auto
    then have "b = - 1 \<and> bh = hi0 \<or> 0 \<le> b \<and> nat b \<in> insert nb S \<union> set nbs \<and> bh = h ! nat b \<and> bh < hi0"
      using Cons.IH [OF l, of "insert nb S"] by simp
    then show ?thesis by auto
  next
    case False
    then have l: "lowest h nbs (best, besth) = (b, bh)" using Cons.prems(1) by simp
    show ?thesis using Cons.IH [OF l Cons.prems(2)] by auto
  qed
qed

lemma downfrom_cases:
  "downfrom m h i = - 2 \<and> isedge m i \<or>
   downfrom m h i = - 1 \<and> \<not> isedge m i \<or>
   0 \<le> downfrom m h i \<and> \<not> isedge m i \<and> nat (downfrom m h i) \<in> set (adj m ! i) \<and>
     h ! nat (downfrom m h i) < h ! i"
proof (cases "isedge m i")
  case True
  then show ?thesis by (simp add: downfrom_def)
next
  case False
  obtain b bh where l: "lowest h (neighbours m i) (- 1, h ! i) = (b, bh)"
    by (cases "lowest h (neighbours m i) (- 1, h ! i)")
  have "b = - 1 \<and> bh = h ! i \<or> 0 \<le> b \<and> nat b \<in> {} \<union> set (neighbours m i) \<and> bh = h ! nat b \<and> bh < h ! i"
    by (rule lowest_cases [OF l]) simp
  then show ?thesis using False l by (auto simp: downfrom_def neighbours_def)
qed

lemma downhill_nth: "i < length h \<Longrightarrow> downhill m h ! i = downfrom m h i"
  by (simp add: downhill_def)

lemma length_downhill: "length (downhill m h) = length h"
  by (simp add: downhill_def)

lemma downhill_target:
  assumes "mesh_ok m" "field_ok m h" "i < length h" "0 \<le> downhill m h ! i"
  shows "nat (downhill m h ! i) < length h \<and> h ! nat (downhill m h ! i) < h ! i \<and>
         nat (downhill m h ! i) \<in> set (adj m ! i)"
proof -
  have d: "downhill m h ! i = downfrom m h i" using assms(3) by (rule downhill_nth)
  have in_adj: "nat (downfrom m h i) \<in> set (adj m ! i)" and lt: "h ! nat (downfrom m h i) < h ! i"
    using downfrom_cases [of m h i] assms(4) d by auto
  have "adj m ! i \<in> set (adj m)" using assms(1,2,3) by (simp add: mesh_ok_def field_ok_def)
  then have "nat (downfrom m h i) < length h"
    using in_adj assms(1,2) by (auto simp: mesh_ok_def field_ok_def)
  then show ?thesis using in_adj lt d by simp
qed

subsection \<open>fluxLoop\<close>

lemma length_fluxLoop: "length (fluxLoop dh js flux) = length flux"
  by (induction js arbitrary: flux) simp_all

lemma fluxLoop_lower:
  assumes "0 \<le> c" "\<forall>i < length flux. c \<le> flux ! i" "\<forall>j \<in> set js. j < length flux"
  shows "\<forall>i < length flux. c \<le> fluxLoop dh js flux ! i"
  using assms(2,3)
proof (induction js arbitrary: flux)
  case Nil
  then show ?case by simp
next
  case (Cons j js)
  define flux' where "flux' = (if dh ! j \<ge> 0 then flux[nat (dh ! j) := flux ! nat (dh ! j) + flux ! j] else flux)"
  have len: "length flux' = length flux" by (simp add: flux'_def)
  have j: "c \<le> flux ! j" using Cons.prems by simp
  have "\<forall>i < length flux'. c \<le> flux' ! i"
  proof (intro allI impI)
    fix i assume "i < length flux'"
    then have i: "i < length flux" using len by simp
    then have "c \<le> flux ! i" using Cons.prems(1) by simp
    moreover have "nat (dh ! j) < length flux \<Longrightarrow> c \<le> flux ! nat (dh ! j)"
      using Cons.prems(1) by simp
    ultimately show "c \<le> flux' ! i"
      using i j assms(1) by (cases "i = nat (dh ! j)") (auto simp: flux'_def)
  qed
  moreover have "\<forall>j \<in> set js. j < length flux'" using Cons.prems(2) len by simp
  ultimately have "\<forall>i < length flux'. c \<le> fluxLoop dh js flux' ! i"
    by (rule Cons.IH)
  then show ?case using len by (simp add: flux'_def)
qed

lemma held_update:
  assumes "t < length flux" "t \<in> U \<or> dh ! t < 0"
  shows "held dh U (flux[t := flux ! t + x]) = held dh U flux + x"
proof -
  let ?n = "length flux"
  let ?f = "\<lambda>fl i. if i \<in> U \<or> dh ! i < 0 then fl ! i else (0::real)"
  have "held dh U (flux[t := flux ! t + x]) = (\<Sum>i<?n. ?f flux i + (if i = t then x else 0))"
    unfolding held_def using assms by (auto intro!: sum.cong)
  also have "\<dots> = (\<Sum>i<?n. ?f flux i) + (\<Sum>i<?n. if i = t then x else 0)"
    by (rule sum.distrib)
  also have "(\<Sum>i<?n. if i = t then x else 0) = x"
    using assms(1) by simp
  finally show ?thesis by (simp add: held_def)
qed

lemma held_insert:
  assumes "j < length flux" "j \<notin> U" "\<not> dh ! j < 0"
  shows "held dh (insert j U) flux = held dh U flux + flux ! j"
proof -
  let ?n = "length flux"
  let ?f = "\<lambda>V i. if i \<in> V \<or> dh ! i < 0 then flux ! i else (0::real)"
  have "held dh (insert j U) flux = (\<Sum>i<?n. ?f U i + (if i = j then flux ! j else 0))"
    unfolding held_def using assms by (auto intro!: sum.cong)
  also have "\<dots> = (\<Sum>i<?n. ?f U i) + (\<Sum>i<?n. if i = j then flux ! j else 0)"
    by (rule sum.distrib)
  also have "(\<Sum>i<?n. if i = j then flux ! j else 0) = flux ! j"
    using assms(1) by simp
  finally show ?thesis by (simp add: held_def)
qed

lemma held_insert_sink:
  assumes "dh ! j < 0"
  shows "held dh (insert j U) flux = held dh U flux"
  unfolding held_def by (rule sum.cong) (use assms in auto)

lemma fluxLoop_conserves:
  fixes h :: "real list"
  assumes "sorted (map (\<lambda>i. - (h ! i)) js)" "distinct js" "\<forall>j \<in> set js. j < length flux"
    and "\<forall>j \<in> set js. 0 \<le> dh ! j \<longrightarrow> nat (dh ! j) \<in> set js \<and> h ! nat (dh ! j) < h ! j"
  shows "held dh {} (fluxLoop dh js flux) = held dh (set js) flux"
  using assms
proof (induction js arbitrary: flux)
  case Nil
  then show ?case by simp
next
  case (Cons j js)
  let ?t = "nat (dh ! j)"
  let ?flux' = "if dh ! j \<ge> 0 then flux[?t := flux ! ?t + flux ! j] else flux"
  have sorted': "sorted (map (\<lambda>i. - (h ! i)) js)" and dist': "distinct js"
    and jnot: "j \<notin> set js"
    using Cons.prems(1,2) by simp_all
  have le: "h ! k \<le> h ! j" if "k \<in> set js" for k
    using Cons.prems(1) that by auto
  have range': "\<forall>k \<in> set js. k < length ?flux'" using Cons.prems(3) by simp
  have route': "\<forall>k \<in> set js. 0 \<le> dh ! k \<longrightarrow> nat (dh ! k) \<in> set js \<and> h ! nat (dh ! k) < h ! k"
  proof (intro ballI impI)
    fix k assume k: "k \<in> set js" and d: "0 \<le> dh ! k"
    then have a: "nat (dh ! k) \<in> set (j # js)" and b: "h ! nat (dh ! k) < h ! k"
      using Cons.prems(4) by auto
    have "nat (dh ! k) \<noteq> j" using b le [OF k] by auto
    then show "nat (dh ! k) \<in> set js \<and> h ! nat (dh ! k) < h ! k" using a b by simp
  qed
  have IH: "held dh {} (fluxLoop dh js ?flux') = held dh (set js) ?flux'"
    by (rule Cons.IH [OF sorted' dist' range' route'])
  have "held dh (set js) ?flux' = held dh (set (j # js)) flux"
  proof (cases "0 \<le> dh ! j")
    case True
    then have a: "?t \<in> set (j # js)" and b: "h ! ?t < h ! j"
      using Cons.prems(4) by auto
    then have t: "?t \<in> set js" by auto
    then have tl: "?t < length flux" using Cons.prems(3) by simp
    have "held dh (set js) ?flux' = held dh (set js) flux + flux ! j"
      using True held_update [OF tl, of "set js" dh "flux ! j"] t by simp
    also have "\<dots> = held dh (insert j (set js)) flux"
      using held_insert [of j flux "set js" dh] jnot True Cons.prems(3) by simp
    finally show ?thesis by simp
  next
    case False
    then show ?thesis using held_insert_sink [of dh j "set js" flux] by simp
  qed
  then show ?case using IH by simp
qed

lemma length_getFlux: "length (getFlux m h) = length h"
  by (simp add: getFlux_def Let_def length_fluxLoop)

lemma twoSiteMesh_adj: "adj twoSiteMesh = [[1, 2, 5], [0, 3, 4], [0, 3], [2, 1], [1, 5], [4, 0]]"
  by (simp add: twoSiteMesh_eq)

lemma downhill_example: "downhill twoSiteMesh [1, 0, 2, 2, 2, 2] = [1, - 1, - 2, - 2, - 2, - 2]"
  by (simp add: downhill_def downfrom_def isedge_def neighbours_def twoSiteMesh_adj upt_rec)

lemma sort_example: "sort_key (\<lambda>i. - ([1, 0, 2, 2, 2, 2::real] ! i)) [0..<6] = [2, 3, 4, 5, 0, 1]"
  by (simp add: upt_rec)

lemma getFlux_example:
  "getFlux twoSiteMesh [1, 0, 2, 2, 2, 2] = [1 / 6, 1 / 3, 1 / 6, 1 / 6, 1 / 6, 1 / 6]"
  by (simp add: getFlux_def downhill_example sort_example)

lemma twoSiteMesh_ok: "mesh_ok twoSiteMesh"
  by (simp add: mesh_ok_def twoSiteMesh_eq)

text \<open>
  C3, as stated: the values of \<open>getFlux\<close> sum to 1 minus the flux drained at the
  boundary vertices. The flux of a vertex is added to its downhill vertex and stays
  counted where it was, so the values sum to more than 1 as soon as one vertex has a
  downhill vertex. On \<open>twoSiteMesh\<close> with heights \<open>[1, 0, 2, 2, 2, 2]\<close> vertex
  \<open>0\<close> flows into vertex \<open>1\<close>; the sum is \<open>7/6\<close>, the four boundary vertices
  hold \<open>2/3\<close>.
\<close>

theorem flux_sum_exceeds_one:
  "sum_list (getFlux twoSiteMesh [1, 0, 2, 2, 2, 2]) = 7 / 6 \<and>
   drained twoSiteMesh (getFlux twoSiteMesh [1, 0, 2, 2, 2, 2]) = 2 / 3 \<and>
   sum_list (getFlux twoSiteMesh [1, 0, 2, 2, 2, 2])
     \<noteq> 1 - drained twoSiteMesh (getFlux twoSiteMesh [1, 0, 2, 2, 2, 2])"
  by (simp add: getFlux_example drained_def isedge_def twoSiteMesh_adj upt_rec)

text \<open>
  C3, amended: on a non-empty field every value of \<open>getFlux\<close> is at least
  \<open>1/vertexCount\<close>; the values at the local minima sum to 1 minus the flux drained
  at the boundary vertices (all the rain ends at a vertex without downhill vertex);
  the sum of all values is at least 1.
\<close>

theorem getFlux_shares:
  assumes "mesh_ok m" "field_ok m h" "h \<noteq> []"
  shows "(\<forall>i < length h. 1 / real (length h) \<le> getFlux m h ! i) \<and>
         pooled m h (getFlux m h) = 1 - drained m (getFlux m h) \<and>
         1 \<le> sum_list (getFlux m h)"
proof -
  define n where "n = length h"
  define dh where "dh = downhill m h"
  define flux0 where "flux0 = replicate n (1 / real n)"
  define idxs where "idxs = sort_key (\<lambda>i. - (h ! i)) [0..<n]"
  define fl where "fl = getFlux m h"
  have n: "0 < n" using assms(3) by (simp add: n_def)
  have fl: "fl = fluxLoop dh idxs flux0"
    by (simp add: fl_def getFlux_def Let_def dh_def idxs_def flux0_def n_def)
  have len0: "length flux0 = n" by (simp add: flux0_def)
  have len: "length fl = n" by (simp add: fl length_fluxLoop len0)
  have set_idxs: "set idxs = {..<n}" by (auto simp: idxs_def)
  have dist: "distinct idxs" by (simp add: idxs_def)
  have sorted: "sorted (map (\<lambda>i. - (h ! i)) idxs)" by (simp add: idxs_def)
  have range: "\<forall>j \<in> set idxs. j < length flux0" by (simp add: set_idxs len0)
  have lower: "\<forall>i < n. 1 / real n \<le> fl ! i"
    using fluxLoop_lower [of "1 / real n" flux0 idxs dh] range len0
    by (simp add: fl flux0_def)
  have route: "\<forall>j \<in> set idxs. 0 \<le> dh ! j \<longrightarrow> nat (dh ! j) \<in> set idxs \<and> h ! nat (dh ! j) < h ! j"
    using downhill_target [OF assms(1,2)] by (simp add: set_idxs dh_def n_def)
  have "held dh {} fl = held dh (set idxs) flux0"
    unfolding fl by (rule fluxLoop_conserves [OF sorted dist range route])
  also have "\<dots> = (\<Sum>i<n. 1 / real n)"
    unfolding held_def len0 set_idxs by (rule sum.cong) (simp_all add: flux0_def)
  also have "\<dots> = 1" using n by simp
  finally have held1: "held dh {} fl = 1" .
  have split: "(if dh ! i < 0 then fl ! i else 0)
      = (if dh ! i = - 1 then fl ! i else 0) + (if isedge m i then fl ! i else 0)"
    if "i < n" for i
  proof -
    have "dh ! i = downfrom m h i" using that by (simp add: dh_def downhill_nth n_def)
    then show ?thesis using downfrom_cases [of m h i] by auto
  qed
  have "held dh {} fl = (\<Sum>i<n. (if dh ! i = - 1 then fl ! i else 0) + (if isedge m i then fl ! i else 0))"
    unfolding held_def len by (rule sum.cong) (simp_all add: split)
  also have "\<dots> = (\<Sum>i<n. if dh ! i = - 1 then fl ! i else 0) + (\<Sum>i<n. if isedge m i then fl ! i else 0)"
    by (rule sum.distrib)
  also have "(\<Sum>i<n. if dh ! i = - 1 then fl ! i else 0) = pooled m h fl"
    by (simp add: pooled_def len dh_def interv_sum_list_conv_sum_set_nat atLeast0LessThan)
  also have "(\<Sum>i<n. if isedge m i then fl ! i else 0) = drained m fl"
    by (simp add: drained_def len interv_sum_list_conv_sum_set_nat atLeast0LessThan)
  finally have "pooled m h fl + drained m fl = 1" using held1 by simp
  then have pool: "pooled m h fl = 1 - drained m fl" by simp
  have "sum_list fl = (\<Sum>i<n. fl ! i)"
    by (simp add: sum_list_sum_nth len atLeast0LessThan)
  moreover have "(\<Sum>i<n. 1 / real n) \<le> (\<Sum>i<n. fl ! i)"
    by (rule sum_mono) (use lower in simp)
  ultimately have "1 \<le> sum_list fl" using n by simp
  then show ?thesis using lower pool by (simp add: fl_def n_def)
qed

theorem getFlux_shares_witness:
  "mesh_ok twoSiteMesh \<and> field_ok twoSiteMesh [1, 0, 2, 2, 2, 2] \<and>
   1 / 6 \<le> getFlux twoSiteMesh [1, 0, 2, 2, 2, 2] ! 0 \<and>
   pooled twoSiteMesh [1, 0, 2, 2, 2, 2] (getFlux twoSiteMesh [1, 0, 2, 2, 2, 2])
     = 1 - drained twoSiteMesh (getFlux twoSiteMesh [1, 0, 2, 2, 2, 2]) \<and>
   1 \<le> sum_list (getFlux twoSiteMesh [1, 0, 2, 2, 2, 2])"
proof -
  have f: "field_ok twoSiteMesh [1, 0, 2, 2, 2, 2]"
    by (simp add: field_ok_def twoSiteMesh_eq)
  show ?thesis
    using getFlux_shares [OF twoSiteMesh_ok f] twoSiteMesh_ok f by simp
qed

section \<open>The mesh of the three sites\<close>

lemma threeSiteMesh_eq:
  "threeSiteMesh =
     \<lparr>pts = [(3/10, 2/5), (-3/10, 2/5), (0, -1/2)],
      vxs = [(0, 0), (0, 1), (1, -1/3), (-1, -1/3), (1, 1), (1, -1), (-1, -1), (-1, 1)],
      adj = [[1, 2, 3], [0, 4, 7], [0, 4, 5], [0, 6, 7], [1, 2], [2, 6], [5, 3], [3, 1]],
      tris = [[(-3/10, 2/5), (3/10, 2/5), (0, -1/2)], [(-3/10, 2/5), (3/10, 2/5)],
              [(3/10, 2/5), (0, -1/2)], [(0, -1/2), (-3/10, 2/5)], [(3/10, 2/5)],
              [(0, -1/2)], [(0, -1/2)], [(-3/10, 2/5)]],
      edges = [(0, 1, (-3/10, 2/5), Some (3/10, 2/5)), (0, 2, (3/10, 2/5), Some (0, -1/2)),
               (0, 3, (0, -1/2), Some (-3/10, 2/5)), (1, 4, (3/10, 2/5), None),
               (4, 2, (3/10, 2/5), None), (2, 5, (0, -1/2), None), (5, 6, (0, -1/2), None),
               (6, 3, (0, -1/2), None), (3, 7, (-3/10, 2/5), None),
               (7, 1, (-3/10, 2/5), None)],
      extent = \<lparr>width = 2, height = 2\<rparr>\<rparr>"
  by (simp add: threeSiteMesh_def threeSiteEdges_def makeMesh_def vertexId_def pushAt_def
      setAt_def entryAt_def noteSites_def)

lemma threeSiteMesh_adj:
  "adj threeSiteMesh = [[1, 2, 3], [0, 4, 7], [0, 4, 5], [0, 6, 7], [1, 2], [2, 6], [5, 3], [3, 1]]"
  by (simp add: threeSiteMesh_eq)

lemma threeSiteMesh_vxs:
  "vxs threeSiteMesh = [(0, 0), (0, 1), (1, -1/3), (-1, -1/3), (1, 1), (1, -1), (-1, -1), (-1, 1)]"
  by (simp add: threeSiteMesh_eq)

lemma threeSiteMesh_extent: "extent threeSiteMesh = \<lparr>width = 2, height = 2\<rparr>"
  by (simp add: threeSiteMesh_eq)

lemma threeSiteMesh_ok: "mesh_ok threeSiteMesh"
  by (simp add: mesh_ok_def threeSiteMesh_adj threeSiteMesh_vxs)

lemma threeSiteMesh_nearedge:
  "map (isnearedge threeSiteMesh) [0..<8] = [False, True, True, True, True, True, True, True]"
  by (simp add: isnearedge_def threeSiteMesh_vxs threeSiteMesh_extent upt_rec)

section \<open>Properties of getRivers\<close>

lemma set_map_filter_conv: "set (List.map_filter f xs) = {y. \<exists>x \<in> set xs. f x = Some y}"
  by (induction xs) (auto simp: map_filter_simps split: option.splits)

lemma downhill_valley: "downhill threeSiteMesh valley = [3, 0, 0, - 1, - 2, - 2, - 2, - 2]"
  by (simp add: valley_def downhill_def downfrom_def isedge_def neighbours_def threeSiteMesh_adj upt_rec)

lemma sort_valley: "sort_key (\<lambda>i. - (valley ! i)) [0..<8] = [1, 2, 4, 5, 6, 7, 0, 3]"
  by (simp add: valley_def upt_rec)

lemma getFlux_valley:
  "getFlux threeSiteMesh valley = [3 / 8, 1 / 8, 1 / 8, 1 / 2, 1 / 8, 1 / 8, 1 / 8, 1 / 8]"
  unfolding getFlux_def downhill_valley
  using sort_valley by (simp add: valley_def)

lemma riverLimit_valley: "riverLimit valley (1 / 100) = 7 / 800"
  by (simp add: riverLimit_def valley_def)

lemma riverLinks_valley:
  "riverLinks threeSiteMesh valley (1 / 100) = [((0, 0), (- 1 / 2, - 1 / 6))]"
  unfolding riverLinks_def getFlux_valley downhill_valley riverLimit_valley
  by (simp add: riverLink_def isnearedge_def threeSiteMesh_vxs threeSiteMesh_extent valley_def
      upt_rec map_filter_simps)

text \<open>
  C8, as stated: a vertex emits a segment exactly when its flux exceeds the
  threshold, it lies above sea level and it has a downhill vertex. The loop first
  skips every vertex near the edge of the map. In the valley, vertex 1 is near the
  edge and meets the three conditions, and it emits nothing: the only segment is
  the one from the origin, cut at the midpoint because its downhill vertex lies
  below sea level.
\<close>

theorem nearedge_vertex_has_no_river:
  "riverLimit valley (1 / 100) < getFlux threeSiteMesh valley ! 1 \<and>
   0 < valley ! 1 \<and>
   0 \<le> downhill threeSiteMesh valley ! 1 \<and>
   riverLink threeSiteMesh valley (downhill threeSiteMesh valley) (getFlux threeSiteMesh valley)
     (riverLimit valley (1 / 100)) 1 = None \<and>
   riverLinks threeSiteMesh valley (1 / 100) = [((0, 0), (- 1 / 2, - 1 / 6))]"
  unfolding riverLinks_valley getFlux_valley downhill_valley riverLimit_valley
  by (simp add: riverLink_def isnearedge_def threeSiteMesh_vxs threeSiteMesh_extent valley_def)

text \<open>
  C8, amended: the segments are those of the vertices that are not near the edge,
  whose flux exceeds \<open>fluxThresholdFraction\<close> times the fraction of vertices above
  sea level, that lie above sea level and have a downhill vertex. A segment starts
  at the position of its vertex and ends at the position of the downhill vertex when
  that vertex lies above sea level, and at the midpoint of the two positions
  otherwise.
\<close>

theorem river_links:
  fixes m :: mesh and h :: "real list" and limit :: real
  defines "dh \<equiv> downhill m h"
  defines "flux \<equiv> getFlux m h"
  defines "thr \<equiv> limit * (real (card {i. i < length h \<and> 0 < h ! i}) / real (length h))"
  shows "set (riverLinks m h limit) = {seg. \<exists>i < length h. riverLink m h dh flux thr i = Some seg} \<and>
         (\<forall>i. riverLink m h dh flux thr i \<noteq> None \<longleftrightarrow>
               \<not> isnearedge m i \<and> thr < flux ! i \<and> 0 < h ! i \<and> 0 \<le> dh ! i) \<and>
         (\<forall>i seg. riverLink m h dh flux thr i = Some seg \<longrightarrow>
               fst seg = vxs m ! i \<and>
               snd seg = (if 0 < h ! nat (dh ! i) then vxs m ! nat (dh ! i)
                          else ((fst (vxs m ! i) + fst (vxs m ! nat (dh ! i))) / 2,
                                (snd (vxs m ! i) + snd (vxs m ! nat (dh ! i))) / 2)))"
proof -
  have thr: "riverLimit h limit = thr"
    by (simp add: riverLimit_def thr_def length_filter_conv_card)
  have ld: "length dh = length h" by (simp add: dh_def length_downhill)
  have "set (riverLinks m h limit) = {seg. \<exists>i < length h. riverLink m h dh flux thr i = Some seg}"
    unfolding riverLinks_def Let_def thr dh_def [symmetric] flux_def [symmetric]
    using ld by (auto simp: set_map_filter_conv)
  moreover have "riverLink m h dh flux thr i \<noteq> None \<longleftrightarrow>
               \<not> isnearedge m i \<and> thr < flux ! i \<and> 0 < h ! i \<and> 0 \<le> dh ! i" for i
  proof (cases "\<not> isnearedge m i \<and> thr < flux ! i \<and> 0 < h ! i \<and> 0 \<le> dh ! i")
    case True
    then show ?thesis
      by (cases "0 < h ! nat (dh ! i)") (simp_all add: riverLink_def Let_def)
  next
    case False
    then show ?thesis by (auto simp: riverLink_def)
  qed
  moreover have "fst seg = vxs m ! i \<and>
               snd seg = (if 0 < h ! nat (dh ! i) then vxs m ! nat (dh ! i)
                          else ((fst (vxs m ! i) + fst (vxs m ! nat (dh ! i))) / 2,
                                (snd (vxs m ! i) + snd (vxs m ! nat (dh ! i))) / 2))"
    if "riverLink m h dh flux thr i = Some seg" for i seg
    using that by (auto simp: riverLink_def Let_def split: if_splits)
  ultimately show ?thesis by blast
qed

theorem river_links_witness:
  "\<exists>i < length valley.
     \<not> isnearedge threeSiteMesh i \<and> 0 < valley ! i \<and> 0 \<le> downhill threeSiteMesh valley ! i \<and>
     ((0, 0), (- 1 / 2, - 1 / 6)) \<in> set (riverLinks threeSiteMesh valley (1 / 100))"
proof -
  define thr where
    "thr = 1 / 100 * (real (card {i. i < length valley \<and> 0 < valley ! i}) / real (length valley))"
  define link where
    "link = riverLink threeSiteMesh valley (downhill threeSiteMesh valley)
              (getFlux threeSiteMesh valley) thr"
  note R = river_links [of threeSiteMesh valley "1 / 100", folded thr_def, folded link_def]
  have R1: "set (riverLinks threeSiteMesh valley (1 / 100)) = {seg. \<exists>i < length valley. link i = Some seg}"
    using R by (rule conjunct1)
  have R2: "\<forall>i. link i \<noteq> None \<longleftrightarrow>
      \<not> isnearedge threeSiteMesh i \<and> thr < getFlux threeSiteMesh valley ! i \<and> 0 < valley ! i \<and>
      0 \<le> downhill threeSiteMesh valley ! i"
    using R by (rule conjunct1 [OF conjunct2])
  have mem: "((0, 0), (- 1 / 2, - 1 / 6)) \<in> set (riverLinks threeSiteMesh valley (1 / 100))"
    by (simp add: riverLinks_valley)
  then obtain i where i: "i < length valley" and l: "link i = Some ((0, 0), (- 1 / 2, - 1 / 6))"
    unfolding R1 by blast
  from l have "link i \<noteq> None" by simp
  then have "\<not> isnearedge threeSiteMesh i \<and> 0 < valley ! i \<and> 0 \<le> downhill threeSiteMesh valley ! i"
    using R2 by blast
  then show ?thesis using i mem by blast
qed

section \<open>Properties of fillSinks\<close>

lemma relaxVertex_keeps_changed: "snd (relaxVertex h eps i nbs (newh, True))"
  by (induction nbs arbitrary: newh) (simp_all add: Let_def)

lemma relaxVertex_moves:
  assumes "relaxVertex h eps i nbs (newh, c) = (newh', c')"
    and "i < length h" "length newh = length h" "set nbs \<subseteq> set (neighbours m i)"
    and "newh ! i \<noteq> h ! i"
  shows "(fillMove m h eps)\<^sup>*\<^sup>* newh newh' \<and>
         (c' \<longrightarrow> c \<or> (fillMove m h eps)\<^sup>+\<^sup>+ newh newh') \<and>
         (\<not> c' \<longrightarrow> newh' = newh) \<and> (c \<longrightarrow> c')"
  using assms
proof (induction nbs arbitrary: newh c)
  case Nil
  then show ?case by simp
next
  case (Cons nb nbs)
  have nb: "nb \<in> set (neighbours m i)" using Cons.prems(4) by simp
  have sub: "set nbs \<subseteq> set (neighbours m i)" using Cons.prems(4) by simp
  show ?case
  proof (cases "h ! i \<ge> newh ! nb + eps")
    case True
    then have r: "newh' = newh[i := h ! i]" "c'" using Cons.prems(1) by simp_all
    have "fillMove m h eps newh newh'"
      unfolding r by (rule fillMove.snap [OF Cons.prems(2) nb Cons.prems(5) True])
    then show ?thesis using r by auto
  next
    case False
    show ?thesis
    proof (cases "newh ! i > newh ! nb + eps \<and> newh ! nb + eps > h ! i")
      case True
      let ?x = "newh[i := newh ! nb + eps]"
      have rec: "relaxVertex h eps i nbs (?x, True) = (newh', c')"
        using Cons.prems(1) False True by (simp add: Let_def)
      have mv: "fillMove m h eps newh ?x"
        using True by (intro fillMove.lower [OF Cons.prems(2) nb]) simp_all
      have "?x ! i \<noteq> h ! i" using True Cons.prems(2,3) by simp
      then have IH: "(fillMove m h eps)\<^sup>*\<^sup>* ?x newh'"
        using Cons.IH [OF rec Cons.prems(2) _ sub] Cons.prems(3) by simp
      have "c'" using relaxVertex_keeps_changed [of h eps i nbs ?x] rec by simp
      moreover have "(fillMove m h eps)\<^sup>+\<^sup>+ newh newh'"
        using mv IH by (meson rtranclp_into_tranclp2)
      ultimately show ?thesis by auto
    next
      case F2: False
      then have rec: "relaxVertex h eps i nbs (newh, c) = (newh', c')"
        using Cons.prems(1) False by (auto simp: Let_def)
      show ?thesis
        by (rule Cons.IH [OF rec Cons.prems(2,3) sub Cons.prems(5)])
    qed
  qed
qed

lemma fillMove_length: "fillMove m h eps x y \<Longrightarrow> length y = length x"
  by (induction rule: fillMove.induct) simp_all

lemma fillMoves_length: "(fillMove m h eps)\<^sup>*\<^sup>* x y \<Longrightarrow> length y = length x"
  by (induction rule: rtranclp_induct) (simp_all add: fillMove_length)

lemma sweep_moves:
  assumes "sweep m h eps is (newh, c) = (newh', c')"
    and "set is \<subseteq> {..<length h}" "length newh = length h"
  shows "(fillMove m h eps)\<^sup>*\<^sup>* newh newh' \<and>
         (c' \<longrightarrow> c \<or> (fillMove m h eps)\<^sup>+\<^sup>+ newh newh') \<and>
         (\<not> c' \<longrightarrow> newh' = newh) \<and> (c \<longrightarrow> c')"
  using assms
proof (induction "is" arbitrary: newh c)
  case Nil
  then show ?case by simp
next
  case (Cons i "is")
  have i: "i < length h" and sub: "set is \<subseteq> {..<length h}" using Cons.prems(2) by simp_all
  show ?case
  proof (cases "newh ! i = h ! i")
    case True
    then have "sweep m h eps is (newh, c) = (newh', c')" using Cons.prems(1) by simp
    then show ?thesis by (rule Cons.IH [OF _ sub Cons.prems(3)])
  next
    case False
    obtain x d where rv: "relaxVertex h eps i (neighbours m i) (newh, c) = (x, d)"
      by (cases "relaxVertex h eps i (neighbours m i) (newh, c)")
    have A: "(fillMove m h eps)\<^sup>*\<^sup>* newh x \<and> (d \<longrightarrow> c \<or> (fillMove m h eps)\<^sup>+\<^sup>+ newh x) \<and>
             (\<not> d \<longrightarrow> x = newh) \<and> (c \<longrightarrow> d)"
      by (rule relaxVertex_moves [OF rv i Cons.prems(3) _ False]) simp
    then have lx: "length x = length h"
      using fillMoves_length [of m h eps newh x] Cons.prems(3) by simp
    have "sweep m h eps is (x, d) = (newh', c')" using Cons.prems(1) False rv by simp
    then have B: "(fillMove m h eps)\<^sup>*\<^sup>* x newh' \<and> (c' \<longrightarrow> d \<or> (fillMove m h eps)\<^sup>+\<^sup>+ x newh') \<and>
             (\<not> c' \<longrightarrow> newh' = x) \<and> (d \<longrightarrow> c')"
      by (rule Cons.IH [OF _ sub lx])
    have 1: "(fillMove m h eps)\<^sup>*\<^sup>* newh newh'" using A B by (meson rtranclp_trans)
    have 2: "c \<or> (fillMove m h eps)\<^sup>+\<^sup>+ newh newh'" if "c'"
    proof (cases d)
      case True
      then show ?thesis using A B by (meson rtranclp_tranclp_tranclp tranclp_rtranclp_tranclp)
    next
      case False
      then show ?thesis using that A B by (meson rtranclp_tranclp_tranclp)
    qed
    have 3: "newh' = newh" if "\<not> c'" using that A B by auto
    have 4: "c \<longrightarrow> c'" using A B by auto
    show ?thesis using 1 2 3 4 by blast
  qed
qed

lemma fillLoop_total:
  assumes T: "T newh"
    and len: "\<And>x. T x \<Longrightarrow> length x = length h"
    and pres: "\<And>x y. T x \<Longrightarrow> fillMove m h eps x y \<Longrightarrow> T y \<and> (\<mu> y :: nat) < \<mu> x"
  shows "\<exists>r. fillLoop m h eps newh = Some r \<and> T r"
  using T
proof (induction "\<mu> newh" arbitrary: newh rule: less_induct)
  case less
  obtain x ch where sw: "sweep m h eps [0..<length h] (newh, False) = (x, ch)"
    by (cases "sweep m h eps [0..<length h] (newh, False)")
  have sub: "set [0..<length h] \<subseteq> {..<length h}" by auto
  have mv: "(ch \<longrightarrow> (fillMove m h eps)\<^sup>+\<^sup>+ newh x) \<and> (\<not> ch \<longrightarrow> x = newh)"
    using sweep_moves [OF sw sub len [OF less.prems]] by auto
  have step: "T b \<and> \<mu> b < \<mu> a" if "(fillMove m h eps)\<^sup>+\<^sup>+ a b" "T a" for a b
    using that
  proof (induction rule: tranclp_induct)
    case (base y)
    then show ?case using pres by blast
  next
    case (step y z)
    then show ?case using pres [of y z] by auto
  qed
  show ?case
  proof (cases ch)
    case False
    then have "fillLoop m h eps newh = Some newh"
      using sw mv by (subst fillLoop.simps) simp
    then show ?thesis using less.prems by blast
  next
    case True
    then have "T x \<and> \<mu> x < \<mu> newh" using mv step less.prems by blast
    then obtain r where "fillLoop m h eps x = Some r \<and> T r"
      using less.hyps by blast
    moreover have "fillLoop m h eps newh = fillLoop m h eps x"
      using sw True by (subst fillLoop.simps) simp
    ultimately show ?thesis by auto
  qed
qed

lemma fillLoop_bounded:
  assumes T: "T newh"
    and len: "\<And>x. T x \<Longrightarrow> length x = length h"
    and pres: "\<And>x y. T x \<Longrightarrow> fillMove m h eps x y \<Longrightarrow> T y \<and> (\<mu> y :: nat) < \<mu> x"
    and k: "\<mu> newh < k"
  shows "fillLoopN k m h eps newh = fillLoop m h eps newh"
  using T k
proof (induction "\<mu> newh" arbitrary: newh k rule: less_induct)
  case less
  obtain k' where k': "k = Suc k'" using less.prems(2) by (cases k) simp_all
  obtain x ch where sw: "sweep m h eps [0..<length h] (newh, False) = (x, ch)"
    by (cases "sweep m h eps [0..<length h] (newh, False)")
  have sub: "set [0..<length h] \<subseteq> {..<length h}" by auto
  have mv: "(ch \<longrightarrow> (fillMove m h eps)\<^sup>+\<^sup>+ newh x) \<and> (\<not> ch \<longrightarrow> x = newh)"
    using sweep_moves [OF sw sub len [OF less.prems(1)]] by auto
  have step: "T b \<and> \<mu> b < \<mu> a" if "(fillMove m h eps)\<^sup>+\<^sup>+ a b" "T a" for a b
    using that
  proof (induction rule: tranclp_induct)
    case (base y)
    then show ?case using pres by blast
  next
    case (step y z)
    then show ?case using pres [of y z] by auto
  qed
  show ?case
  proof (cases ch)
    case False
    then have "fillLoop m h eps newh = Some x"
      using sw by (subst fillLoop.simps) simp
    moreover have "fillLoopN k m h eps newh = Some x"
      using sw False by (simp add: k')
    ultimately show ?thesis by simp
  next
    case True
    then have x: "T x" "\<mu> x < \<mu> newh" using mv step less.prems(1) by blast+
    then have "\<mu> x < k'" using less.prems(2) k' by simp
    then have "fillLoopN k' m h eps x = fillLoop m h eps x"
      using less.hyps [OF x(2) x(1)] by simp
    moreover have "fillLoop m h eps newh = fillLoop m h eps x"
      using sw True by (subst fillLoop.simps) simp
    moreover have "fillLoopN k m h eps newh = fillLoopN k' m h eps x"
      using sw True by (simp add: k')
    ultimately show ?thesis by simp
  qed
qed

lemma finite_levels: "finite (levels h eps)"
  by (simp add: levels_def)

lemma levels_base: "b \<in> insert infinity (set h) \<Longrightarrow> b \<in> levels h eps"
  unfolding levels_def by (rule image_eqI [where x = "(b, 0)"]) simp_all

lemma levels_step:
  assumes x: "x \<in> levels h eps" and eps: "eps \<noteq> 0"
    and bound: "if eps > 0 then x + eps \<le> Max (insert infinity (set h))
                else x + eps \<ge> Min (insert infinity (set h))"
  shows "x + eps \<in> levels h eps"
proof -
  let ?B = "insert infinity (set h)"
  let ?U = "Max ?B" and ?L = "Min ?B"
  let ?K = "nat \<lceil>(?U - ?L) / \<bar>eps\<bar>\<rceil>"
  obtain b k where b: "b \<in> ?B" and k: "k \<le> ?K" and xe: "x = b + real k * eps"
    using x unfolding levels_def by auto
  have bL: "?L \<le> b" and bU: "b \<le> ?U" using b by simp_all
  have "real (Suc k) * \<bar>eps\<bar> \<le> ?U - ?L"
  proof (cases "eps > 0")
    case True
    then have "b + real (Suc k) * eps \<le> ?U" using bound xe by (simp add: algebra_simps)
    then show ?thesis using True bL by simp
  next
    case False
    then have neg: "eps < 0" using eps by simp
    then have "b + real (Suc k) * eps \<ge> ?L" using bound xe by (simp add: algebra_simps)
    then have "real (Suc k) * (- eps) \<le> ?U - ?L" using bU by (simp add: algebra_simps)
    then show ?thesis using neg by simp
  qed
  then have "real (Suc k) \<le> (?U - ?L) / \<bar>eps\<bar>" using eps by (simp add: pos_le_divide_eq)
  then have "real (Suc k) \<le> real_of_int \<lceil>(?U - ?L) / \<bar>eps\<bar>\<rceil>" by linarith
  then have "Suc k \<le> ?K" by linarith
  moreover have "x + eps = b + real (Suc k) * eps" using xe by (simp add: algebra_simps)
  ultimately show ?thesis
    unfolding levels_def using b by (intro image_eqI [where x = "(b, Suc k)"]) simp_all
qed

lemma rank_decrease:
  assumes "i < length h" "length x = length h"
    and "(if v = h ! i then 0 else 1 + card {s \<in> levels h eps. s < v})
         < (if x ! i = h ! i then 0 else 1 + card {s \<in> levels h eps. s < x ! i})"
  shows "rank h eps (x[i := v]) < rank h eps x"
  unfolding rank_def
proof (rule sum_strict_mono_ex1)
  show "finite {..<length h}" by simp
  show "\<forall>k \<in> {..<length h}.
          (if x[i := v] ! k = h ! k then 0 else 1 + card {s \<in> levels h eps. s < x[i := v] ! k})
          \<le> (if x ! k = h ! k then 0 else 1 + card {s \<in> levels h eps. s < x ! k})"
  proof
    fix k assume "k \<in> {..<length h}"
    then show "(if x[i := v] ! k = h ! k then 0 else 1 + card {s \<in> levels h eps. s < x[i := v] ! k})
          \<le> (if x ! k = h ! k then 0 else 1 + card {s \<in> levels h eps. s < x ! k})"
      using assms by (cases "k = i") (auto split: if_splits)
  qed
  show "\<exists>k \<in> {..<length h}.
          (if x[i := v] ! k = h ! k then 0 else 1 + card {s \<in> levels h eps. s < x[i := v] ! k})
          < (if x ! k = h ! k then 0 else 1 + card {s \<in> levels h eps. s < x ! k})"
    using assms by (intro bexI [where x = i]) (auto split: if_splits)
qed

lemma neighbour_in_range:
  assumes "mesh_ok m" "field_ok m h" "i < length h" "nb \<in> set (neighbours m i)"
  shows "nb < length h"
proof -
  have "adj m ! i \<in> set (adj m)" using assms(1,2,3) by (simp add: mesh_ok_def field_ok_def)
  then show ?thesis using assms by (auto simp: mesh_ok_def field_ok_def neighbours_def)
qed

lemma fillMove_settled:
  assumes ok: "mesh_ok m" "field_ok m h" and eps: "eps \<noteq> 0"
    and st: "settled h eps x" and mv: "fillMove m h eps x y"
  shows "settled h eps y \<and> rank h eps y < rank h eps x"
  using mv
proof (cases rule: fillMove.cases)
  case (snap i nb)
  have len: "length x = length h" using st by (simp add: settled_def)
  have hi: "h ! i \<in> insert infinity (set h)" using snap(2) by simp
  have "settled h eps y"
    unfolding settled_def snap(1)
  proof (intro conjI allI impI)
    show "length (x[i := h ! i]) = length h" using len by simp
  next
    fix k assume k: "k < length h"
    show "x[i := h ! i] ! k \<in> levels h eps"
      using st k len levels_base [OF hi, of eps] by (cases "k = i") (simp_all add: settled_def)
    show "x[i := h ! i] ! k \<le> Max (insert infinity (set h))"
      using st k len hi by (cases "k = i") (simp_all add: settled_def)
  qed
  moreover have "rank h eps y < rank h eps x"
    unfolding snap(1) by (rule rank_decrease [OF snap(2) len]) (use snap(4) in simp)
  ultimately show ?thesis by simp
next
  case (lower i nb)
  let ?B = "insert infinity (set h)"
  let ?v = "x ! nb + eps"
  have len: "length x = length h" using st by (simp add: settled_def)
  have nb: "nb < length h" by (rule neighbour_in_range [OF ok lower(2,3)])
  have xnb: "x ! nb \<in> levels h eps" "x ! nb \<le> Max ?B" using st nb by (simp_all add: settled_def)
  have xi: "x ! i \<in> levels h eps" "x ! i \<le> Max ?B" using st lower(2) by (simp_all add: settled_def)
  have hi: "Min ?B \<le> h ! i" using lower(2) by simp
  have v_in: "?v \<in> levels h eps"
    by (rule levels_step [OF xnb(1) eps]) (use lower(4,5) xi(2) hi in auto)
  have v_le: "?v \<le> Max ?B"
  proof (cases "eps > 0")
    case True
    then show ?thesis using lower(4) xi(2) by simp
  next
    case False
    then show ?thesis using xnb(2) by simp
  qed
  have "settled h eps y"
    unfolding settled_def lower(1)
  proof (intro conjI allI impI)
    show "length (x[i := ?v]) = length h" using len by simp
  next
    fix k assume k: "k < length h"
    show "x[i := ?v] ! k \<in> levels h eps"
      using st k len v_in by (cases "k = i") (simp_all add: settled_def)
    show "x[i := ?v] ! k \<le> Max ?B"
      using st k len v_le by (cases "k = i") (simp_all add: settled_def)
  qed
  moreover have "rank h eps y < rank h eps x"
    unfolding lower(1)
  proof (rule rank_decrease [OF lower(2) len])
    have "{s \<in> levels h eps. s < ?v} \<subset> {s \<in> levels h eps. s < x ! i}"
      using v_in lower(4) by auto
    then have "card {s \<in> levels h eps. s < ?v} < card {s \<in> levels h eps. s < x ! i}"
      by (intro psubset_card_mono) (simp_all add: finite_levels)
    then show "(if ?v = h ! i then 0 else 1 + card {s \<in> levels h eps. s < ?v})
         < (if x ! i = h ! i then 0 else 1 + card {s \<in> levels h eps. s < x ! i})"
      using lower(4,5) by simp
  qed
  ultimately show ?thesis by simp
qed

lemma fillStart_settled:
  "settled h eps (fillStart m h)"
  unfolding settled_def fillStart_def
  by (auto intro!: levels_base)

lemma fillMove_rising:
  assumes eps: "0 < eps" and r: "rising m h eps x" and mv: "fillMove m h eps x y"
  shows "rising m h eps y"
  using mv
proof (cases rule: fillMove.cases)
  case (snap i nb)
  have len: "length x = length h" using r by (simp add: rising_def)
  have ix: "i < length x" using snap(2) len by simp
  have hx: "h ! i \<le> x ! i" using r snap(2) by (simp add: rising_def)
  have nbi: "nb \<noteq> i" using snap(5) hx eps by auto
  show ?thesis
    unfolding rising_def snap(1)
  proof (intro conjI allI impI)
    show "length (x[i := h ! i]) = length h" using len by simp
  next
    fix k assume k: "k < length h"
    show "h ! k \<le> x[i := h ! i] ! k"
      using r k ix by (cases "k = i") (simp_all add: rising_def)
    show "x[i := h ! i] ! k = h ! k" if "isnearedge m k"
      using r k ix that by (cases "k = i") (simp_all add: rising_def)
    show "\<exists>nb \<in> set (neighbours m k). x[i := h ! i] ! nb + eps \<le> x[i := h ! i] ! k"
      if a: "\<not> isnearedge m k \<and> x[i := h ! i] ! k < infinity"
    proof (cases "k = i")
      case True
      have "x[i := h ! i] ! nb + eps \<le> x[i := h ! i] ! k"
        using snap(5) nbi ix True by simp
      then show ?thesis using snap(3) True by blast
    next
      case False
      then have "\<not> isnearedge m k \<and> x ! k < infinity" using a by simp
      then obtain nb' where nb': "nb' \<in> set (neighbours m k)" "x ! nb' + eps \<le> x ! k"
        using r k by (auto simp: rising_def)
      have "x[i := h ! i] ! nb' \<le> x ! nb'" using hx ix by (cases "nb' = i") simp_all
      then have "x[i := h ! i] ! nb' + eps \<le> x[i := h ! i] ! k" using nb'(2) False by simp
      then show ?thesis using nb'(1) by blast
    qed
  qed
next
  case (lower i nb)
  let ?v = "x ! nb + eps"
  have len: "length x = length h" using r by (simp add: rising_def)
  have ix: "i < length x" using lower(2) len by simp
  have nbi: "nb \<noteq> i" using lower(4) eps by auto
  have not_near: "\<not> isnearedge m i" using r lower(2,4,5) by (auto simp: rising_def)
  show ?thesis
    unfolding rising_def lower(1)
  proof (intro conjI allI impI)
    show "length (x[i := ?v]) = length h" using len by simp
  next
    fix k assume k: "k < length h"
    show "h ! k \<le> x[i := ?v] ! k"
      using r k ix lower(5) by (cases "k = i") (simp_all add: rising_def)
    show "x[i := ?v] ! k = h ! k" if "isnearedge m k"
      using r k ix that not_near by (cases "k = i") (simp_all add: rising_def)
    show "\<exists>nb \<in> set (neighbours m k). x[i := ?v] ! nb + eps \<le> x[i := ?v] ! k"
      if a: "\<not> isnearedge m k \<and> x[i := ?v] ! k < infinity"
    proof (cases "k = i")
      case True
      have "x[i := ?v] ! nb + eps \<le> x[i := ?v] ! k"
        using nbi ix True by simp
      then show ?thesis using lower(3) True by blast
    next
      case False
      then have "\<not> isnearedge m k \<and> x ! k < infinity" using a by simp
      then obtain nb' where nb': "nb' \<in> set (neighbours m k)" "x ! nb' + eps \<le> x ! k"
        using r k by (auto simp: rising_def)
      have "x[i := ?v] ! nb' \<le> x ! nb'" using lower(4) ix by (cases "nb' = i") simp_all
      then have "x[i := ?v] ! nb' + eps \<le> x[i := ?v] ! k" using nb'(2) False by simp
      then show ?thesis using nb'(1) by blast
    qed
  qed
qed

lemma fillStart_rising:
  assumes "\<forall>v \<in> set h. v < infinity"
  shows "rising m h eps (fillStart m h)"
  unfolding rising_def fillStart_def using assms by (auto simp: less_imp_le)

lemma fillSinks_rising:
  assumes ok: "mesh_ok m" "field_ok m h" and below: "\<forall>v \<in> set h. v < infinity"
    and eps: "0 < epsilon" and res: "fillSinks m h epsilon = Some r"
  shows "rising m h epsilon r"
proof -
  have e: "epsilon \<noteq> 0" using eps by simp
  have "\<exists>r'. fillLoop m h epsilon (fillStart m h) = Some r' \<and>
             (settled h epsilon r' \<and> rising m h epsilon r')"
  proof (rule fillLoop_total [where \<mu> = "rank h epsilon"])
    show "settled h epsilon (fillStart m h) \<and> rising m h epsilon (fillStart m h)"
      using fillStart_settled fillStart_rising [OF below] by blast
    show "length x = length h" if "settled h epsilon x \<and> rising m h epsilon x" for x
      using that by (simp add: settled_def)
    show "(settled h epsilon y \<and> rising m h epsilon y) \<and> rank h epsilon y < rank h epsilon x"
      if "settled h epsilon x \<and> rising m h epsilon x" "fillMove m h epsilon x y" for x y
      using fillMove_settled [OF ok e _ that(2)] fillMove_rising [OF eps _ that(2)] that(1)
      by blast
  qed
  then show ?thesis using res e by (auto simp: fillSinks_def)
qed

subsection \<open>Two runs of fillSinks\<close>

lemma threeSiteMesh_neighbours:
  "neighbours threeSiteMesh 0 = [1, 2, 3]" "neighbours threeSiteMesh 3 = [0, 6, 7]"
  by (simp_all add: neighbours_def threeSiteMesh_adj)

lemma fillStart_valley: "fillStart threeSiteMesh valley = [999999, 2, 2, - 1, 2, 2, 2, 2]"
  by (simp add: fillStart_def valley_def isnearedge_def threeSiteMesh_vxs threeSiteMesh_extent
      infinity_def upt_rec)

lemma sweep_valley_1:
  "sweep threeSiteMesh valley (1 / 100000) [0..<length valley] ([999999, 2, 2, - 1, 2, 2, 2, 2], False)
     = (valley, True)"
  by (simp add: valley_def threeSiteMesh_neighbours upt_rec)

lemma sweep_valley_2:
  "sweep threeSiteMesh valley (1 / 100000) [0..<length valley] (valley, False) = (valley, False)"
  by (simp add: valley_def upt_rec)

lemma fillSinks_valley: "fillSinks threeSiteMesh valley (1 / 100000) = Some valley"
  unfolding fillSinks_def fillStart_valley
  by (simp add: fillLoop.simps [of _ _ _ "[999999, 2, 2, - 1, 2, 2, 2, 2]"] sweep_valley_1
      fillLoop.simps [of _ _ _ valley] sweep_valley_2)

lemma fillStart_pit: "fillStart threeSiteMesh pit = [999999, 2, 2, 1, 2, 2, 2, 2]"
  by (simp add: fillStart_def pit_def isnearedge_def threeSiteMesh_vxs threeSiteMesh_extent
      infinity_def upt_rec)

lemma sweep_pit_1:
  "sweep threeSiteMesh pit (1 / 100000) [0..<length pit] ([999999, 2, 2, 1, 2, 2, 2, 2], False)
     = ([100001 / 100000, 2, 2, 1, 2, 2, 2, 2], True)"
  by (simp add: pit_def threeSiteMesh_neighbours upt_rec)

lemma sweep_pit_2:
  "sweep threeSiteMesh pit (1 / 100000) [0..<length pit] ([100001 / 100000, 2, 2, 1, 2, 2, 2, 2], False)
     = ([100001 / 100000, 2, 2, 1, 2, 2, 2, 2], False)"
  by (simp add: pit_def threeSiteMesh_neighbours upt_rec)

lemma fillSinks_pit:
  "fillSinks threeSiteMesh pit (1 / 100000) = Some [100001 / 100000, 2, 2, 1, 2, 2, 2, 2]"
  unfolding fillSinks_def fillStart_pit
  by (simp add: fillLoop.simps [of _ _ _ "[999999, 2, 2, 1, 2, 2, 2, 2]"] sweep_pit_1
      fillLoop.simps [of _ _ _ "[100001 / 100000, 2, 2, 1, 2, 2, 2, 2]"] sweep_pit_2)

lemma pit_ok: "field_ok threeSiteMesh pit"
  by (simp add: field_ok_def pit_def threeSiteMesh_vxs)

lemma pit_below: "\<forall>v \<in> set pit. v < 999999"
  by (simp add: pit_def)

subsection \<open>Termination\<close>

text \<open>
  C2. \<open>fillSinks\<close> returns on every height map bound to its mesh, for every
  \<open>epsilon\<close>. The loop has no iteration ceiling and never reports that it did not
  converge; it ends because every pass that changes something lowers \<open>rank\<close>, a
  natural number: a filled height only moves down through the finite set
  \<open>levels\<close>, or is set to the height of its vertex once and for all. That is the
  convergence bound: at most \<open>rank\<close> of the start values many passes change
  something, so the loop cut off after one pass more returns the same map.
\<close>

theorem fillSinks_terminates:
  assumes "mesh_ok m" "field_ok m h"
  shows "\<exists>r. fillSinks m h epsilon = Some r \<and> length r = length h \<and>
           fillLoopN (Suc (rank h (if epsilon = 0 then 1 / 100000 else epsilon) (fillStart m h)))
             m h (if epsilon = 0 then 1 / 100000 else epsilon) (fillStart m h) = Some r"
proof -
  define eps where "eps = (if epsilon = 0 then 1 / 100000 else epsilon)"
  have eps: "eps \<noteq> 0" by (simp add: eps_def)
  have start: "settled h eps (fillStart m h)" by (rule fillStart_settled)
  have len: "length x = length h" if "settled h eps x" for x
    using that by (simp add: settled_def)
  have pres: "settled h eps y \<and> rank h eps y < rank h eps x"
    if "settled h eps x" "fillMove m h eps x y" for x y
    by (rule fillMove_settled [OF assms eps that])
  have "\<exists>r. fillLoop m h eps (fillStart m h) = Some r \<and> settled h eps r"
  proof (rule fillLoop_total [where \<mu> = "rank h eps"])
    show "settled h eps (fillStart m h)" by (rule start)
    show "length x = length h" if "settled h eps x" for x by (rule len [OF that])
    show "settled h eps y \<and> rank h eps y < rank h eps x"
      if "settled h eps x" "fillMove m h eps x y" for x y by (rule pres [OF that])
  qed
  then obtain r where r: "fillLoop m h eps (fillStart m h) = Some r" and st: "settled h eps r"
    by blast
  have "fillLoopN (Suc (rank h eps (fillStart m h))) m h eps (fillStart m h)
          = fillLoop m h eps (fillStart m h)"
  proof (rule fillLoop_bounded [where T = "settled h eps" and \<mu> = "rank h eps"])
    show "settled h eps (fillStart m h)" by (rule start)
    show "length x = length h" if "settled h eps x" for x by (rule len [OF that])
    show "settled h eps y \<and> rank h eps y < rank h eps x"
      if "settled h eps x" "fillMove m h eps x y" for x y by (rule pres [OF that])
    show "rank h eps (fillStart m h) < Suc (rank h eps (fillStart m h))" by (rule lessI)
  qed
  then show ?thesis
    using r st unfolding fillSinks_def Let_def eps_def [symmetric]
    by (simp add: settled_def)
qed

theorem fillSinks_terminates_witness:
  "mesh_ok threeSiteMesh \<and> field_ok threeSiteMesh pit \<and>
   (\<exists>r. fillSinks threeSiteMesh pit 0 = Some r \<and> length r = length pit)"
  using fillSinks_terminates [OF threeSiteMesh_ok pit_ok, of 0] threeSiteMesh_ok pit_ok
  by auto

subsection \<open>The filled heights\<close>

text \<open>
  C10. When all heights lie below 999999 and \<open>epsilon\<close> is positive, the map that
  \<open>fillSinks\<close> returns lies nowhere below the height map, and equals it at every
  vertex near the edge.
\<close>

theorem fillSinks_never_lowers:
  assumes "mesh_ok m" "field_ok m h" "\<forall>v \<in> set h. v < 999999" "0 < epsilon"
    and "fillSinks m h epsilon = Some r"
  shows "length r = length h \<and>
         (\<forall>i < length h. h ! i \<le> r ! i \<and> (isnearedge m i \<longrightarrow> r ! i = h ! i))"
proof -
  have "\<forall>v \<in> set h. v < infinity" using assms(3) by (simp add: infinity_def)
  then have "rising m h epsilon r"
    by (rule fillSinks_rising [OF assms(1,2) _ assms(4,5)])
  then show ?thesis by (simp add: rising_def)
qed


theorem fillSinks_never_lowers_witness:
  "mesh_ok threeSiteMesh \<and> field_ok threeSiteMesh pit \<and> (0::real) < 1 / 100000 \<and>
   fillSinks threeSiteMesh pit (1 / 100000) = Some [100001 / 100000, 2, 2, 1, 2, 2, 2, 2] \<and>
   pit ! 0 \<le> [100001 / 100000, 2, 2, 1, 2, 2, 2, 2] ! 0 \<and>
   isnearedge threeSiteMesh 3 \<and> [100001 / 100000, 2, 2, 1, 2, 2, 2, 2 :: real] ! 3 = pit ! 3"
proof -
  have e: "(0::real) < 1 / 100000" by simp
  have n: "isnearedge threeSiteMesh 3"
    by (simp add: isnearedge_def threeSiteMesh_vxs threeSiteMesh_extent)
  have "\<forall>i < length pit. pit ! i \<le> [100001 / 100000, 2, 2, 1, 2, 2, 2, 2] ! i \<and>
          (isnearedge threeSiteMesh i \<longrightarrow> [100001 / 100000, 2, 2, 1, 2, 2, 2, 2] ! i = pit ! i)"
    using fillSinks_never_lowers [OF threeSiteMesh_ok pit_ok pit_below e fillSinks_pit]
    by (rule conjunct2)
  moreover have "0 < length pit" "3 < length pit" by (simp_all add: pit_def)
  ultimately show ?thesis using threeSiteMesh_ok pit_ok fillSinks_pit e n by blast
qed

text \<open>
  C1, as stated: in the map that \<open>fillSinks\<close> returns, every vertex that is not a
  boundary vertex (a vertex with fewer than three neighbours) has a strictly lower
  neighbour. A vertex near the edge keeps its height whatever its neighbours are.
  In the valley, vertex 3 is near the edge, has the three neighbours 0, 6 and 7, and
  is lower than all of them before and after \<open>fillSinks\<close>; \<open>downhill\<close> reports
  it as a local minimum.
\<close>

theorem nearedge_minimum_stays:
  "fillSinks threeSiteMesh valley (1 / 100000) = Some valley \<and>
   \<not> isedge threeSiteMesh 3 \<and>
   neighbours threeSiteMesh 3 = [0, 6, 7] \<and>
   \<not> valley ! 0 < valley ! 3 \<and> \<not> valley ! 6 < valley ! 3 \<and> \<not> valley ! 7 < valley ! 3 \<and>
   downhill threeSiteMesh valley ! 3 = - 1"
  by (simp add: fillSinks_valley threeSiteMesh_neighbours downhill_valley isedge_def
      threeSiteMesh_adj) (simp add: valley_def)

subsection \<open>The filled heights, whatever the rounding of the sum\<close>

lemma relaxVertexWith_exact: "relaxVertexWith (+) h eps i nbs s = relaxVertex h eps i nbs s"
proof (induction nbs arbitrary: s)
  case Nil
  then show ?case by (cases s) simp
next
  case (Cons nb nbs)
  then show ?case by (cases s) (simp add: Let_def)
qed

lemma sweepWith_exact: "sweepWith (+) m h eps is s = sweep m h eps is s"
proof (induction "is" arbitrary: s)
  case Nil
  then show ?case by (cases s) simp
next
  case (Cons i "is")
  then show ?case by (cases s) (simp add: relaxVertexWith_exact)
qed

lemma fillLoopWith_exact_1:
  assumes "fillLoopWith fadd m h eps x = Some r"
  shows "fadd = (+) \<longrightarrow> fillLoop m h eps x = Some r"
proof (rule fillLoopWith.raw_induct
    [where P = "\<lambda>fadd m h eps x r. fadd = (+) \<longrightarrow> fillLoop m h eps x = Some r", OF _ assms],
    goal_cases)
  case (1 loop fadd m h eps x r)
  show ?case
  proof
    assume f: "fadd = (+)"
    obtain y ch where sw: "sweepWith fadd m h eps [0..<length h] (x, False) = (y, ch)"
      by (cases "sweepWith fadd m h eps [0..<length h] (x, False)")
    then have sw': "sweep m h eps [0..<length h] (x, False) = (y, ch)"
      using f by (simp add: sweepWith_exact)
    show "fillLoop m h eps x = Some r"
    proof (cases ch)
      case False
      then have "r = y" using 1(2) sw by simp
      then show ?thesis using sw' False by (subst fillLoop.simps) simp
    next
      case True
      then have "loop fadd m h eps y = Some r" using 1(2) sw by simp
      then have "fillLoop m h eps y = Some r" using 1(1) f by blast
      then show ?thesis using sw' True by (subst fillLoop.simps) simp
    qed
  qed
qed

lemma fillLoopWith_exact_2:
  assumes "fillLoop m h eps x = Some r"
  shows "fillLoopWith (+) m h eps x = Some r"
proof (rule fillLoop.raw_induct
    [where P = "\<lambda>m h eps x r. fillLoopWith (+) m h eps x = Some r", OF _ assms], goal_cases)
  case (1 loop m h eps x r)
  obtain y ch where sw: "sweep m h eps [0..<length h] (x, False) = (y, ch)"
    by (cases "sweep m h eps [0..<length h] (x, False)")
  then have sw': "sweepWith (+) m h eps [0..<length h] (x, False) = (y, ch)"
    by (simp add: sweepWith_exact)
  show ?case
  proof (cases ch)
    case False
    then have "r = y" using 1(2) sw by simp
    then show ?thesis using sw' False by (subst fillLoopWith.simps) simp
  next
    case True
    then have "loop m h eps y = Some r" using 1(2) sw by simp
    then have "fillLoopWith (+) m h eps y = Some r" using 1(1) by blast
    then show ?thesis using sw' True by (subst fillLoopWith.simps) simp
  qed
qed

lemma fillSinksWith_exact: "fillSinksWith (+) m h epsilon = fillSinks m h epsilon"
proof -
  have "fillLoopWith (+) m h eps x = fillLoop m h eps x" for eps x
  proof (cases "fillLoop m h eps x")
    case None
    then show ?thesis using fillLoopWith_exact_1 [of "(+)" m h eps x]
      by (cases "fillLoopWith (+) m h eps x") simp_all
  next
    case (Some r)
    then show ?thesis using fillLoopWith_exact_2 by simp
  qed
  then show ?thesis by (simp add: fillSinksWith_def fillSinks_def)
qed

lemma relaxVertexWith_keeps_changed: "snd (relaxVertexWith fadd h eps i nbs (newh, True))"
  by (induction nbs arbitrary: newh) (simp_all add: Let_def)

lemma filling_update:
  assumes rd: "rounding fadd eps" and f: "filling fadd m h eps x"
    and i: "i < length h" and nb: "nb \<in> set (neighbours m i)"
    and lo: "h ! i \<le> v" and hi: "v \<le> x ! i"
    and w: "fadd (x ! nb) eps \<le> v"
  shows "filling fadd m h eps (x[i := v])"
proof -
  let ?y = "x[i := v]"
  have len: "length x = length h" using f by (simp add: filling_def)
  have ix: "i < length x" using i len by simp
  have L2: "a \<le> b \<Longrightarrow> fadd a eps \<le> fadd b eps" for a b using rd by (simp add: rounding_def)
  have yi: "?y ! i = v" using ix by simp
  have down: "?y ! k \<le> x ! k" for k
    using hi ix by (cases "k = i") simp_all
  have below: "fadd (?y ! k) eps \<le> fadd (x ! k) eps" for k
    by (rule L2 [OF down])
  show ?thesis
    unfolding filling_def
  proof (intro conjI allI impI)
    show "length ?y = length h" using len by simp
  next
    fix k assume k: "k < length h"
    show "h ! k \<le> ?y ! k"
      using f k lo ix by (cases "k = i") (simp_all add: filling_def)
    show "?y ! k = h ! k" if "isnearedge m k"
    proof (cases "k = i")
      case True
      then have "x ! i = h ! i" using f i that by (simp add: filling_def)
      then have "v = h ! i" using lo hi by simp
      then show ?thesis using True ix by simp
    next
      case False
      then show ?thesis using f k that by (simp add: filling_def)
    qed
    show "?y ! k = infinity \<or> (\<exists>nb \<in> set (neighbours m k). fadd (?y ! nb) eps \<le> ?y ! k)"
      if nn: "\<not> isnearedge m k"
    proof (cases "k = i")
      case True
      have "fadd (?y ! nb) eps \<le> fadd (x ! nb) eps" by (rule below)
      then have "fadd (?y ! nb) eps \<le> ?y ! k" using w yi True by simp
      then show ?thesis using nb True by blast
    next
      case False
      then have same: "?y ! k = x ! k" by simp
      have "x ! k = infinity \<or> (\<exists>nb \<in> set (neighbours m k). fadd (x ! nb) eps \<le> x ! k)"
        using f k nn by (simp add: filling_def)
      then show ?thesis
      proof
        assume "x ! k = infinity"
        then show ?thesis using same by simp
      next
        assume "\<exists>nb \<in> set (neighbours m k). fadd (x ! nb) eps \<le> x ! k"
        then obtain nb' where nb': "nb' \<in> set (neighbours m k)" "fadd (x ! nb') eps \<le> x ! k"
          by blast
        have "fadd (?y ! nb') eps \<le> fadd (x ! nb') eps" by (rule below)
        then have "fadd (?y ! nb') eps \<le> ?y ! k" using nb'(2) same by simp
        then show ?thesis using nb'(1) by blast
      qed
    qed
  qed
qed

lemma relaxVertexWith_filling:
  assumes rd: "rounding fadd eps"
    and rv: "relaxVertexWith fadd h eps i nbs (x, c) = (y, c')"
    and f: "filling fadd m h eps x"
    and i: "i < length h" and sub: "set nbs \<subseteq> set (neighbours m i)"
  shows "filling fadd m h eps y \<and> (c \<longrightarrow> c') \<and>
         (\<not> c' \<longrightarrow> y = x \<and>
            (\<forall>nb \<in> set nbs. h ! i < fadd (x ! nb) eps \<and> x ! i \<le> fadd (x ! nb) eps))"
  using rv f sub
proof (induction nbs arbitrary: x c)
  case Nil
  then show ?case by simp
next
  case (Cons nb nbs)
  have nb: "nb \<in> set (neighbours m i)" using Cons.prems(3) by simp
  have sub': "set nbs \<subseteq> set (neighbours m i)" using Cons.prems(3) by simp
  have hx: "h ! i \<le> x ! i" using Cons.prems(2) i by (simp add: filling_def)
  show ?case
  proof (cases "h ! i \<ge> fadd (x ! nb) eps")
    case True
    then have r: "y = x[i := h ! i]" "c'" using Cons.prems(1) by simp_all
    have "filling fadd m h eps (x[i := h ! i])"
      by (rule filling_update [OF rd Cons.prems(2) i nb _ hx True]) simp
    then show ?thesis using r by simp
  next
    case False
    show ?thesis
    proof (cases "x ! i > fadd (x ! nb) eps \<and> fadd (x ! nb) eps > h ! i")
      case True
      let ?z = "x[i := fadd (x ! nb) eps]"
      have rec: "relaxVertexWith fadd h eps i nbs (?z, True) = (y, c')"
        using Cons.prems(1) False True by (simp add: Let_def)
      have fz: "filling fadd m h eps ?z"
        by (rule filling_update [OF rd Cons.prems(2) i nb]) (use True in simp_all)
      have "c'" using relaxVertexWith_keeps_changed [of fadd h eps i nbs ?z] rec by simp
      moreover have "filling fadd m h eps y" using Cons.IH [OF rec fz sub'] by simp
      ultimately show ?thesis by simp
    next
      case F2: False
      then have rec: "relaxVertexWith fadd h eps i nbs (x, c) = (y, c')"
        using Cons.prems(1) False by (auto simp: Let_def)
      have here: "h ! i < fadd (x ! nb) eps \<and> x ! i \<le> fadd (x ! nb) eps"
        using False F2 by auto
      show ?thesis using Cons.IH [OF rec Cons.prems(2) sub'] here by simp
    qed
  qed
qed

lemma sweepWith_filling:
  assumes rd: "rounding fadd eps"
    and sw: "sweepWith fadd m h eps is (x, c) = (y, c')"
    and f: "filling fadd m h eps x"
    and sub: "set is \<subseteq> {..<length h}"
  shows "filling fadd m h eps y \<and> (c \<longrightarrow> c') \<and>
         (\<not> c' \<longrightarrow> y = x \<and> (\<forall>i \<in> set is. at_rest fadd m h eps x i))"
  using sw f sub
proof (induction "is" arbitrary: x c)
  case Nil
  then show ?case by simp
next
  case (Cons i "is")
  have i: "i < length h" and sub': "set is \<subseteq> {..<length h}" using Cons.prems(3) by simp_all
  show ?case
  proof (cases "x ! i = h ! i")
    case True
    then have rec: "sweepWith fadd m h eps is (x, c) = (y, c')" using Cons.prems(1) by simp
    have "at_rest fadd m h eps x i" using True by (simp add: at_rest_def)
    then show ?thesis using Cons.IH [OF rec Cons.prems(2) sub'] by simp
  next
    case False
    obtain z d where rv: "relaxVertexWith fadd h eps i (neighbours m i) (x, c) = (z, d)"
      by (cases "relaxVertexWith fadd h eps i (neighbours m i) (x, c)")
    have A: "filling fadd m h eps z \<and> (c \<longrightarrow> d) \<and>
         (\<not> d \<longrightarrow> z = x \<and>
            (\<forall>nb \<in> set (neighbours m i). h ! i < fadd (x ! nb) eps \<and> x ! i \<le> fadd (x ! nb) eps))"
      by (rule relaxVertexWith_filling [OF rd rv Cons.prems(2) i]) simp
    have rec: "sweepWith fadd m h eps is (z, d) = (y, c')" using Cons.prems(1) False rv by simp
    have B: "filling fadd m h eps y \<and> (d \<longrightarrow> c') \<and>
         (\<not> c' \<longrightarrow> y = z \<and> (\<forall>i \<in> set is. at_rest fadd m h eps z i))"
      using A by (intro Cons.IH [OF rec _ sub']) simp
    have "y = x \<and> (\<forall>k \<in> set (i # is). at_rest fadd m h eps x k)" if "\<not> c'"
    proof -
      have d: "\<not> d" using that B by blast
      then have zx: "z = x" using A by blast
      have "at_rest fadd m h eps x i" using A d by (simp add: at_rest_def)
      then show ?thesis using B that zx by simp
    qed
    then show ?thesis using A B by blast
  qed
qed

lemma fillLoopWith_filling:
  assumes "fillLoopWith fadd m h eps x = Some r"
  shows "rounding fadd eps \<longrightarrow> filling fadd m h eps x \<longrightarrow>
         filling fadd m h eps r \<and> (\<forall>i < length h. at_rest fadd m h eps r i)"
proof (rule fillLoopWith.raw_induct
    [where P = "\<lambda>fadd m h eps x r. rounding fadd eps \<longrightarrow> filling fadd m h eps x \<longrightarrow>
         filling fadd m h eps r \<and> (\<forall>i < length h. at_rest fadd m h eps r i)", OF _ assms],
    goal_cases)
  case (1 loop fadd m h eps x r)
  show ?case
  proof (intro impI)
    assume rd: "rounding fadd eps" and f: "filling fadd m h eps x"
    obtain y ch where sw: "sweepWith fadd m h eps [0..<length h] (x, False) = (y, ch)"
      by (cases "sweepWith fadd m h eps [0..<length h] (x, False)")
    have sub: "set [0..<length h] \<subseteq> {..<length h}" by auto
    have S: "filling fadd m h eps y \<and> (False \<longrightarrow> ch) \<and>
         (\<not> ch \<longrightarrow> y = x \<and> (\<forall>i \<in> set [0..<length h]. at_rest fadd m h eps x i))"
      by (rule sweepWith_filling [OF rd sw f sub])
    show "filling fadd m h eps r \<and> (\<forall>i < length h. at_rest fadd m h eps r i)"
    proof (cases ch)
      case False
      then have "r = y" using 1(2) sw by simp
      then show ?thesis using S False f by auto
    next
      case True
      then have "loop fadd m h eps y = Some r" using 1(2) sw by simp
      then show ?thesis using 1(1) rd S by blast
    qed
  qed
qed

lemma fillStart_filling:
  assumes "\<forall>v \<in> set h. v < infinity"
  shows "filling fadd m h eps (fillStart m h)"
  unfolding filling_def fillStart_def using assms by (auto simp: less_imp_le)

lemma fillSinksWith_filling:
  assumes below: "\<forall>v \<in> set h. v < infinity" and eps: "0 < epsilon"
    and rd: "rounding fadd epsilon"
    and res: "fillSinksWith fadd m h epsilon = Some r"
  shows "filling fadd m h epsilon r \<and> (\<forall>i < length h. at_rest fadd m h epsilon r i)"
proof -
  have "fillLoopWith fadd m h epsilon (fillStart m h) = Some r"
    using res eps by (simp add: fillSinksWith_def)
  then show ?thesis
    using fillLoopWith_filling [of fadd m h epsilon "fillStart m h" r] rd
      fillStart_filling [OF below] by blast
qed

lemma fillSinksWith_pit:
  "fillSinksWith (+) threeSiteMesh pit (1 / 100000) = Some [100001 / 100000, 2, 2, 1, 2, 2, 2, 2]"
  by (simp only: fillSinksWith_exact fillSinks_pit)

lemma sweep_pit_wide:
  "sweepWith (+) threeSiteMesh pit 2000000 [0..<length pit] ([999999, 2, 2, 1, 2, 2, 2, 2], False)
     = ([999999, 2, 2, 1, 2, 2, 2, 2], False)"
  by (simp add: pit_def threeSiteMesh_neighbours upt_rec)

lemma fillSinksWith_pit_wide:
  "fillSinksWith (+) threeSiteMesh pit 2000000 = Some [999999, 2, 2, 1, 2, 2, 2, 2]"
  unfolding fillSinksWith_def fillStart_pit
  by (simp add: fillLoopWith.simps [of _ _ _ _ "[999999, 2, 2, 1, 2, 2, 2, 2]"] sweep_pit_wide)

lemma level_ok: "field_ok threeSiteMesh level"
  by (simp add: field_ok_def level_def threeSiteMesh_vxs)

lemma level_below: "\<forall>v \<in> set level. v < 999999"
  by (simp add: level_def)

lemma fillStart_level: "fillStart threeSiteMesh level = [999999, 1, 2, 2, 2, 2, 2, 2]"
  by (simp add: fillStart_def level_def isnearedge_def threeSiteMesh_vxs threeSiteMesh_extent
      infinity_def upt_rec)

lemma sweep_level_1:
  "sweepWith absorbed threeSiteMesh level eps [0..<length level]
     ([999999, 1, 2, 2, 2, 2, 2, 2], False) = (level, True)"
  by (simp add: level_def threeSiteMesh_neighbours upt_rec absorbed_def)

lemma sweep_level_2:
  "sweepWith absorbed threeSiteMesh level eps [0..<length level] (level, False) = (level, False)"
  by (simp add: level_def upt_rec)

lemma fillLoopWith_level:
  "fillLoopWith absorbed threeSiteMesh level eps [999999, 1, 2, 2, 2, 2, 2, 2] = Some level"
  by (simp add: fillLoopWith.simps [of _ _ _ _ "[999999, 1, 2, 2, 2, 2, 2, 2]"] sweep_level_1
      fillLoopWith.simps [of _ _ _ _ level] sweep_level_2)

lemma fillSinksWith_level:
  "fillSinksWith absorbed threeSiteMesh level (1 / 10 ^ 17) = Some level"
  by (simp only: fillSinksWith_def fillStart_level Let_def fillLoopWith_level)

text \<open>
  C1, amended: when all heights lie below 999999 and \<open>epsilon\<close> is positive, the
  map \<open>r\<close> that \<open>fillSinks\<close> returns satisfies, at every vertex \<open>i\<close> that is
  not near the edge and with the sum as the machine computes it (a sum that does not
  lower a number by adding \<open>epsilon\<close> and that grows with its first operand):
  \<^item> \<open>r[i]\<close> is \<open>h[i]\<close>, or it lies above \<open>h[i]\<close> and, for every neighbour
    \<open>nb\<close>, the sum \<open>r[nb] + epsilon\<close> lies above \<open>h[i]\<close> and not below
    \<open>r[i]\<close>: a raised vertex lies no more than \<open>epsilon\<close> above any neighbour;
  \<^item> some neighbour \<open>nb\<close> has \<open>r[nb] + epsilon \<le> r[i]\<close>, hence \<open>r[nb] \<le> r[i]\<close>,
    and \<open>r[nb] < r[i]\<close> where the sum exceeds \<open>r[nb]\<close>; or else \<open>r[i]\<close> is
    still 999999 and \<open>r[nb] + epsilon\<close> lies above 999999 for every neighbour.

  With the exact sum the neighbour is strictly lower. A sum that absorbs \<open>epsilon\<close>
  leaves it level with the vertex, as in the map \<open>level\<close>; a large \<open>epsilon\<close>
  leaves the vertex at 999999, as in the pit with an \<open>epsilon\<close> of 2000000.
  Nothing is said of the vertices near the edge, which keep their height.
\<close>

theorem fillSinks_lower_neighbour:
  assumes "mesh_ok m" "field_ok m h" "\<forall>v \<in> set h. v < 999999" "0 < epsilon"
    and "\<forall>x. x \<le> fadd x epsilon" "\<forall>x y. x \<le> y \<longrightarrow> fadd x epsilon \<le> fadd y epsilon"
    and "fillSinksWith fadd m h epsilon = Some r"
  shows "\<forall>i < length h. \<not> isnearedge m i \<longrightarrow>
           (r ! i = h ! i \<or>
            h ! i < r ! i \<and>
            (\<forall>nb \<in> set (neighbours m i).
               h ! i < fadd (r ! nb) epsilon \<and> r ! i \<le> fadd (r ! nb) epsilon)) \<and>
           ((\<exists>nb \<in> set (neighbours m i).
               fadd (r ! nb) epsilon \<le> r ! i \<and> r ! nb \<le> r ! i \<and>
               (r ! nb < fadd (r ! nb) epsilon \<longrightarrow> r ! nb < r ! i)) \<or>
            r ! i = 999999 \<and> (\<forall>nb \<in> set (neighbours m i). 999999 < fadd (r ! nb) epsilon))"
proof (intro allI impI)
  fix i assume i: "i < length h" and nn: "\<not> isnearedge m i"
  have below: "\<forall>v \<in> set h. v < infinity" using assms(3) by (simp add: infinity_def)
  have rd: "rounding fadd epsilon" using assms(5,6) by (simp add: rounding_def)
  have F: "filling fadd m h epsilon r" and R: "at_rest fadd m h epsilon r i"
    using fillSinksWith_filling [OF below assms(4) rd assms(7)] i by blast+
  have hr: "h ! i \<le> r ! i" using F i by (simp add: filling_def)
  have hi: "h ! i < 999999" using assms(3) i by simp
  have a: "r ! i = h ! i \<or>
            h ! i < r ! i \<and>
            (\<forall>nb \<in> set (neighbours m i).
               h ! i < fadd (r ! nb) epsilon \<and> r ! i \<le> fadd (r ! nb) epsilon)"
    using R hr unfolding at_rest_def by fastforce
  have c: "r ! i = infinity \<or> (\<exists>nb \<in> set (neighbours m i). fadd (r ! nb) epsilon \<le> r ! i)"
    using F i nn by (simp add: filling_def)
  have b: "(\<exists>nb \<in> set (neighbours m i).
               fadd (r ! nb) epsilon \<le> r ! i \<and> r ! nb \<le> r ! i \<and>
               (r ! nb < fadd (r ! nb) epsilon \<longrightarrow> r ! nb < r ! i)) \<or>
            r ! i = 999999 \<and> (\<forall>nb \<in> set (neighbours m i). 999999 < fadd (r ! nb) epsilon)"
  proof (cases "\<exists>nb \<in> set (neighbours m i). fadd (r ! nb) epsilon \<le> r ! i")
    case True
    then obtain nb where nb: "nb \<in> set (neighbours m i)" "fadd (r ! nb) epsilon \<le> r ! i"
      by blast
    have "r ! nb \<le> fadd (r ! nb) epsilon" using assms(5) by simp
    then have "r ! nb \<le> r ! i \<and> (r ! nb < fadd (r ! nb) epsilon \<longrightarrow> r ! nb < r ! i)"
      using nb(2) by simp
    then show ?thesis using nb by blast
  next
    case False
    then have top: "r ! i = 999999" using c by (simp add: infinity_def)
    then have "r ! i \<noteq> h ! i" using hi by simp
    then have "\<forall>nb \<in> set (neighbours m i). r ! i \<le> fadd (r ! nb) epsilon"
      using a by blast
    then have "\<forall>nb \<in> set (neighbours m i). 999999 < fadd (r ! nb) epsilon"
      using False top by fastforce
    then show ?thesis using top by blast
  qed
  show "(r ! i = h ! i \<or>
            h ! i < r ! i \<and>
            (\<forall>nb \<in> set (neighbours m i).
               h ! i < fadd (r ! nb) epsilon \<and> r ! i \<le> fadd (r ! nb) epsilon)) \<and>
           ((\<exists>nb \<in> set (neighbours m i).
               fadd (r ! nb) epsilon \<le> r ! i \<and> r ! nb \<le> r ! i \<and>
               (r ! nb < fadd (r ! nb) epsilon \<longrightarrow> r ! nb < r ! i)) \<or>
            r ! i = 999999 \<and> (\<forall>nb \<in> set (neighbours m i). 999999 < fadd (r ! nb) epsilon))"
    using a b by (rule conjI)
qed

theorem fillSinks_lower_neighbour_witness:
  "mesh_ok threeSiteMesh \<and> field_ok threeSiteMesh pit \<and> (0::real) < 1 / 100000 \<and>
   \<not> isnearedge threeSiteMesh 0 \<and>
   fillSinksWith (+) threeSiteMesh pit (1 / 100000) = Some [100001 / 100000, 2, 2, 1, 2, 2, 2, 2] \<and>
   (\<exists>nb \<in> set (neighbours threeSiteMesh 0).
      [100001 / 100000, 2, 2, 1, 2, 2, 2, 2 :: real] ! nb + 1 / 100000
        \<le> [100001 / 100000, 2, 2, 1, 2, 2, 2, 2] ! 0 \<and>
      [100001 / 100000, 2, 2, 1, 2, 2, 2, 2 :: real] ! nb < [100001 / 100000, 2, 2, 1, 2, 2, 2, 2] ! 0) \<and>
   fillSinksWith (+) threeSiteMesh pit 2000000 = Some [999999, 2, 2, 1, 2, 2, 2, 2] \<and>
   (999999 :: real) < [999999, 2, 2, 1, 2, 2, 2, 2] ! 1 + 2000000 \<and>
   field_ok threeSiteMesh level \<and>
   fillSinksWith absorbed threeSiteMesh level (1 / 10 ^ 17) = Some level \<and>
   (\<exists>nb \<in> set (neighbours threeSiteMesh 0).
      absorbed (level ! nb) (1 / 10 ^ 17) \<le> level ! 0 \<and> level ! nb = level ! 0)"
proof -
  let ?r = "[100001 / 100000, 2, 2, 1, 2, 2, 2, 2 :: real]"
  let ?s = "[999999, 2, 2, 1, 2, 2, 2, 2 :: real]"
  have e: "(0::real) < 1 / 100000" and e2: "(0::real) < 2000000" and e3: "(0::real) < 1 / 10 ^ 17"
    by simp_all
  have n: "\<not> isnearedge threeSiteMesh 0"
    by (simp add: isnearedge_def threeSiteMesh_vxs threeSiteMesh_extent)
  have l: "0 < length pit" and l': "0 < length level" by (simp_all add: pit_def level_def)
  have nbs: "neighbours threeSiteMesh 0 = [1, 2, 3]" by (rule threeSiteMesh_neighbours)
  have s1: "\<forall>x::real. x \<le> x + 1 / 100000"
    and s2: "\<forall>x y::real. x \<le> y \<longrightarrow> x + 1 / 100000 \<le> y + 1 / 100000"
    and w1: "\<forall>x::real. x \<le> x + 2000000"
    and w2: "\<forall>x y::real. x \<le> y \<longrightarrow> x + 2000000 \<le> y + 2000000"
    and a1: "\<forall>x::real. x \<le> absorbed x (1 / 10 ^ 17)"
    and a2: "\<forall>x y::real. x \<le> y \<longrightarrow> absorbed x (1 / 10 ^ 17) \<le> absorbed y (1 / 10 ^ 17)"
    by (simp_all add: absorbed_def)
  have "(\<exists>nb \<in> set (neighbours threeSiteMesh 0).
               ?r ! nb + 1 / 100000 \<le> ?r ! 0 \<and> ?r ! nb \<le> ?r ! 0 \<and>
               (?r ! nb < ?r ! nb + 1 / 100000 \<longrightarrow> ?r ! nb < ?r ! 0)) \<or>
            ?r ! 0 = 999999 \<and> (\<forall>nb \<in> set (neighbours threeSiteMesh 0). 999999 < ?r ! nb + 1 / 100000)"
    using fillSinks_lower_neighbour [OF threeSiteMesh_ok pit_ok pit_below e s1 s2
        fillSinksWith_pit, rule_format, OF l n]
    by (rule conjunct2)
  then have one: "\<exists>nb \<in> set (neighbours threeSiteMesh 0).
      ?r ! nb + 1 / 100000 \<le> ?r ! 0 \<and> ?r ! nb < ?r ! 0"
    by (simp add: nbs)
  have "(\<exists>nb \<in> set (neighbours threeSiteMesh 0).
               ?s ! nb + 2000000 \<le> ?s ! 0 \<and> ?s ! nb \<le> ?s ! 0 \<and>
               (?s ! nb < ?s ! nb + 2000000 \<longrightarrow> ?s ! nb < ?s ! 0)) \<or>
            ?s ! 0 = 999999 \<and> (\<forall>nb \<in> set (neighbours threeSiteMesh 0). 999999 < ?s ! nb + 2000000)"
    using fillSinks_lower_neighbour [OF threeSiteMesh_ok pit_ok pit_below e2 w1 w2
        fillSinksWith_pit_wide, rule_format, OF l n]
    by (rule conjunct2)
  then have two: "(999999 :: real) < ?s ! 1 + 2000000"
    by (simp add: nbs)
  have "(\<exists>nb \<in> set (neighbours threeSiteMesh 0).
               absorbed (level ! nb) (1 / 10 ^ 17) \<le> level ! 0 \<and> level ! nb \<le> level ! 0 \<and>
               (level ! nb < absorbed (level ! nb) (1 / 10 ^ 17) \<longrightarrow> level ! nb < level ! 0)) \<or>
            level ! 0 = 999999 \<and>
            (\<forall>nb \<in> set (neighbours threeSiteMesh 0). 999999 < absorbed (level ! nb) (1 / 10 ^ 17))"
    using fillSinks_lower_neighbour [OF threeSiteMesh_ok level_ok level_below e3 a1 a2
        fillSinksWith_level, rule_format, OF l' n]
    by (rule conjunct2)
  then have three: "\<exists>nb \<in> set (neighbours threeSiteMesh 0).
      absorbed (level ! nb) (1 / 10 ^ 17) \<le> level ! 0 \<and> level ! nb = level ! 0"
    by (simp add: nbs level_def absorbed_def)
  show ?thesis
    by (intro conjI threeSiteMesh_ok pit_ok e n fillSinksWith_pit one fillSinksWith_pit_wide two
        level_ok fillSinksWith_level three)
qed

section \<open>Properties of erode\<close>

lemma magnitude_nonneg: "magnitude p = Num s \<Longrightarrow> 0 \<le> s"
  by (cases p rule: magnitude.cases) auto

lemma removal_nonneg:
  assumes "removal f sl = Some r" "\<And>s. sl = Num s \<Longrightarrow> 0 \<le> s"
  shows "0 \<le> r"
proof (cases sl)
  case (Num s)
  then have s: "0 \<le> s" using assms(2) by simp
  have f: "0 \<le> f" using assms(1) Num by (auto split: if_splits)
  have "0 \<le> 1000 * (sqrt f * s) + s * s" using s f by simp
  then show ?thesis using assms(1) Num f by (auto simp: Let_def split: if_splits)
next
  case PosInf
  then show ?thesis using assms(1) by (auto split: if_splits)
next
  case NegInf
  then show ?thesis using assms(1) by simp
next
  case NaN
  then show ?thesis using assms(1) by simp
qed

lemma length_erosionRate: "length (erosionRate m h) = length h"
  by (simp add: erosionRate_def Let_def)

lemma erosionRate_nonneg:
  assumes "i < length h" "erosionRate m h ! i = Some r"
  shows "0 \<le> r"
proof -
  have "removal (getFlux m h ! i) (magnitude (trislope m h i)) = Some r"
    using assms by (simp add: erosionRate_def Let_def getSlope_def)
  then show ?thesis by (rule removal_nonneg) (rule magnitude_nonneg)
qed

lemma downhill_ridge: "downhill threeSiteMesh ridge = [- 1, - 1, - 1, - 1, - 2, - 2, - 2, - 2]"
  by (simp add: ridge_def downhill_def downfrom_def isedge_def neighbours_def threeSiteMesh_adj upt_rec)

lemma getFlux_ridge:
  "getFlux threeSiteMesh ridge = [1 / 8, 1 / 8, 1 / 8, 1 / 8, 1 / 8, 1 / 8, 1 / 8, 1 / 8]"
proof -
  have "fluxLoop [- 1, - 1, - 1, - 1, - 2, - 2, - 2, - 2] js fl = fl" if "set js \<subseteq> {..<8}" for js fl
    using that
  proof (induction js arbitrary: fl)
    case Nil
    then show ?case by simp
  next
    case (Cons j js)
    then have "j \<in> {0, 1, 2, 3, 4, 5, 6, 7}" by auto
    then have "\<not> 0 \<le> [- 1, - 1, - 1, - 1, - 2, - 2, - 2, - 2 :: int] ! j" by auto
    then show ?case using Cons by simp
  qed
  moreover have "set (sort_key (\<lambda>i. - (ridge ! i)) [0..<length ridge]) \<subseteq> {..<8}"
    by (auto simp: ridge_def)
  ultimately show ?thesis
    unfolding getFlux_def downhill_ridge Let_def by (simp add: ridge_def)
qed

lemma getSlope_ridge:
  "getSlope threeSiteMesh ridge =
     [Num 0, Num (sqrt 5000), Num (sqrt 5000), Num 0, Num 0, Num 0, Num 0, Num 0]"
  by (simp add: getSlope_def trislope_def neighbours_def threeSiteMesh_adj threeSiteMesh_vxs
      ridge_def js_div_def upt_rec)

lemma removal_steep: "removal (1 / 8) (Num (sqrt 5000)) = Some 200"
proof -
  have a: "0 \<le> 1000 * (sqrt (1 / 8) * sqrt 5000)" by simp
  have b: "sqrt 5000 * sqrt 5000 = 5000" by simp
  have "200 < 1000 * (sqrt (1 / 8) * sqrt 5000) + sqrt 5000 * sqrt 5000"
    unfolding b using a by linarith
  then show ?thesis by (simp add: Let_def)
qed

lemma erosionRate_ridge:
  "erosionRate threeSiteMesh ridge =
     [Some 0, Some 200, Some 200, Some 0, Some 0, Some 0, Some 0, Some 0]"
proof -
  have l: "length ridge = 8" by (simp add: ridge_def)
  show ?thesis
    unfolding erosionRate_def getFlux_ridge getSlope_ridge Let_def l
    using removal_steep by (simp add: upt_rec)
qed

lemma erode_ridge:
  "erode threeSiteMesh ridge 1 = [Num 0, Num (- 1), Num (- 1), Num 0, Num 100, Num 0, Num 0, Num 0]"
  unfolding erode_def erosionRate_ridge Let_def
  by (simp add: map_filter_simps js_div_def ridge_def upt_rec)

text \<open>
  C5, as stated: exactly one vertex, the one of maximal erosion rate, decreases by
  precisely \<open>amount\<close>. The maximum need not be attained once: the rates are
  capped at 200. On the ridge, vertices 1 and 2 both have the steep slope
  \<open>sqrt 5000\<close> and the capped rate 200, and \<open>erode\<close> with amount 1 lowers both
  by 1.
\<close>

theorem two_vertices_lose_the_full_amount:
  "erosionRate threeSiteMesh ridge =
     [Some 0, Some 200, Some 200, Some 0, Some 0, Some 0, Some 0, Some 0] \<and>
   erode threeSiteMesh ridge 1 ! 1 = Num (ridge ! 1 - 1) \<and>
   erode threeSiteMesh ridge 1 ! 2 = Num (ridge ! 2 - 1)"
  by (simp add: erosionRate_ridge erode_ridge) (simp add: ridge_def)

text \<open>
  C5, amended: for \<open>amount \<ge> 0\<close> and a height map none of whose erosion rates is
  NaN and whose greatest erosion rate \<open>M\<close> is positive, \<open>erode\<close> lowers every
  vertex by \<open>amount * (erosionRate[i] / M)\<close>, which lies between 0 and
  \<open>amount\<close>; every vertex whose rate is \<open>M\<close> is lowered by precisely
  \<open>amount\<close>, and there is at least one such vertex, possibly several.
\<close>

theorem erode_scaled:
  assumes fin: "None \<notin> set (erosionRate m h)"
    and mx: "d3_max (List.map_filter id (erosionRate m h)) = Some M"
    and M: "0 < M" and am: "0 \<le> amount"
  shows "(\<forall>i < length h. \<exists>r. erosionRate m h ! i = Some r \<and> 0 \<le> r \<and> r \<le> M \<and>
            erode m h amount ! i = Num (h ! i - amount * (r / M)) \<and>
            0 \<le> amount * (r / M) \<and> (r = M \<longrightarrow> amount * (r / M) = amount)) \<and>
         (\<exists>i < length h. erosionRate m h ! i = Some M)"
proof -
  define er where "er = erosionRate m h"
  define rs where "rs = List.map_filter id er"
  have len: "length er = length h" by (simp add: er_def length_erosionRate)
  have set_rs: "set rs = {r. Some r \<in> set er}"
    by (auto simp: rs_def set_map_filter_conv)
  have ne: "rs \<noteq> []" using mx by (auto simp: rs_def er_def)
  have Mmax: "M = Max (set rs)" using d3_max_Some [OF ne] mx by (simp add: rs_def er_def)
  have "M \<in> set rs" unfolding Mmax using ne by (intro Max_in) simp_all
  then have "Some M \<in> set er" by (simp add: set_rs)
  then obtain i0 where i0: "i0 < length h" "er ! i0 = Some M"
    using len by (auto simp: in_set_conv_nth)
  have each: "\<exists>r. er ! i = Some r \<and> 0 \<le> r \<and> r \<le> M \<and>
            erode m h amount ! i = Num (h ! i - amount * (r / M)) \<and>
            0 \<le> amount * (r / M) \<and> (r = M \<longrightarrow> amount * (r / M) = amount)"
    if i: "i < length h" for i
  proof -
    have "er ! i \<in> set er" using i len by simp
    then have "er ! i \<noteq> None" using fin unfolding er_def by metis
    then obtain r where r: "er ! i = Some r" by blast
    have r0: "0 \<le> r" using erosionRate_nonneg [OF i] r by (simp add: er_def)
    have "r \<in> set rs" using r i len by (auto simp: set_rs in_set_conv_nth)
    then have rM: "r \<le> M" unfolding Mmax by simp
    have "erode m h amount ! i = js_minus (h ! i) (js_scale amount (js_div r M))"
      using i r mx by (simp add: erode_def Let_def er_def)
    then have e: "erode m h amount ! i = Num (h ! i - amount * (r / M))"
      using M by (simp add: js_div_def)
    have "0 \<le> amount * (r / M)" using am r0 M by simp
    moreover have "amount * (r / M) = amount" if "r = M" using that M by simp
    ultimately show ?thesis using r r0 rM e by blast
  qed
  show ?thesis using each i0 unfolding er_def by blast
qed

theorem erode_scaled_witness:
  "None \<notin> set (erosionRate threeSiteMesh ridge) \<and>
   d3_max (List.map_filter id (erosionRate threeSiteMesh ridge)) = Some 200 \<and>
   (\<exists>i < length ridge. erosionRate threeSiteMesh ridge ! i = Some 200) \<and>
   (\<exists>r. erosionRate threeSiteMesh ridge ! 1 = Some r \<and>
        erode threeSiteMesh ridge 1 ! 1 = Num (ridge ! 1 - 1 * (r / 200)))"
proof -
  have a: "None \<notin> set (erosionRate threeSiteMesh ridge)"
    by (simp add: erosionRate_ridge)
  have b: "d3_max (List.map_filter id (erosionRate threeSiteMesh ridge)) = Some 200"
    by (simp add: erosionRate_ridge map_filter_simps)
  have c: "(0::real) < 200" "(0::real) \<le> 1" by simp_all
  have l: "1 < length ridge" by (simp add: ridge_def)
  note E = erode_scaled [OF a b c]
  have "\<exists>i < length ridge. erosionRate threeSiteMesh ridge ! i = Some 200"
    using E by (rule conjunct2)
  moreover have "\<exists>r. erosionRate threeSiteMesh ridge ! 1 = Some r \<and>
        erode threeSiteMesh ridge 1 ! 1 = Num (ridge ! 1 - 1 * (r / 200))"
    using E [THEN conjunct1, rule_format, OF l] by blast
  ultimately show ?thesis using a b by blast
qed

section \<open>Properties of getTerritories\<close>

lemma adj_in_range:
  assumes "mesh_ok m" "u < length (adj m)" "v \<in> set (adj m ! u)"
  shows "v < length (adj m)" "v < length (vxs m)" "u < length (vxs m)"
proof -
  have "adj m ! u \<in> set (adj m)" using assms(2) by simp
  then show "v < length (adj m)" "v < length (vxs m)" "u < length (vxs m)"
    using assms by (auto simp: mesh_ok_def)
qed

lemma queueCapital_ok:
  assumes "mesh_ok m" "c < length (adj m)" "set nbs \<subseteq> set (adj m ! c)"
  shows "\<exists>q'. queueCapital m h flux c nbs q = Inr q' \<and>
           (\<forall>e \<in> set q'. e \<in> set q \<or> city e = c \<and> vx e \<in> set nbs)"
  using assms(3)
proof (induction nbs arbitrary: q)
  case Nil
  then show ?case by simp
next
  case (Cons nb nbs)
  have nb: "nb \<in> set (adj m ! c)" and sub: "set nbs \<subseteq> set (adj m ! c)"
    using Cons.prems by simp_all
  have w: "weightE m h flux c nb = Inr (weight m h flux c nb)"
    using adj_in_range [OF assms(1,2) nb] by (simp add: weightE_def)
  let ?q = "enqueue \<lparr>score = weight m h flux c nb, city = c, vx = nb\<rparr> q"
  obtain q' where q': "queueCapital m h flux c nbs ?q = Inr q'"
    and e: "\<forall>e \<in> set q'. e \<in> set ?q \<or> city e = c \<and> vx e \<in> set nbs"
    using Cons.IH [OF sub, of ?q] by blast
  have "queueCapital m h flux c (nb # nbs) q = Inr q'" using w q' by simp
  moreover have "\<forall>e \<in> set q'. e \<in> set q \<or> city e = c \<and> vx e \<in> set (nb # nbs)"
    using e by (auto simp: enqueue_def)
  ultimately show ?case by blast
qed

lemma queueNeighbours_ok:
  assumes "mesh_ok m" "vx u < length (adj m)" "set vs \<subseteq> set (adj m ! vx u)"
  shows "\<exists>q'. queueNeighbours m h flux terr u vs q = Inr q' \<and>
           (\<forall>e \<in> set q'. e \<in> set q \<or> city e = city u \<and> vx e \<in> set vs)"
  using assms(3)
proof (induction vs arbitrary: q)
  case Nil
  then show ?case by simp
next
  case (Cons v vs)
  have v: "v \<in> set (adj m ! vx u)" and sub: "set vs \<subseteq> set (adj m ! vx u)"
    using Cons.prems by simp_all
  show ?case
  proof (cases "terr v \<noteq> None")
    case True
    then show ?thesis using Cons.IH [OF sub, of q] by auto
  next
    case False
    have w: "weightE m h flux (vx u) v = Inr (weight m h flux (vx u) v)"
      using adj_in_range [OF assms(1,2) v] by (simp add: weightE_def)
    let ?q = "enqueue \<lparr>score = score u + weight m h flux (vx u) v, city = city u, vx = v\<rparr> q"
    obtain q' where q': "queueNeighbours m h flux terr u vs ?q = Inr q'"
      and e: "\<forall>e \<in> set q'. e \<in> set ?q \<or> city e = city u \<and> vx e \<in> set vs"
      using Cons.IH [OF sub, of ?q] by blast
    have "queueNeighbours m h flux terr u (v # vs) q = Inr q'" using w q' False by simp
    moreover have "\<forall>e \<in> set q'. e \<in> set q \<or> city e = city u \<and> vx e \<in> set (v # vs)"
      using e by (auto simp: enqueue_def)
    ultimately show ?thesis by blast
  qed
qed

lemma seed_ok:
  assumes ok: "mesh_ok m" and cs: "\<forall>c \<in> set cs. c < length (adj m)"
  shows "\<exists>terr' q'. seed m h flux cs (terr, q) = Inr (terr', q') \<and>
           (\<forall>v. terr' v = (if v \<in> set cs then Some v else terr v)) \<and>
           (\<forall>e \<in> set q'. e \<in> set q \<or> city e \<in> set cs \<and> vx e \<in> set (adj m ! city e))"
  using cs
proof (induction cs arbitrary: terr q)
  case Nil
  then show ?case by simp
next
  case (Cons c cs)
  have c: "c < length (adj m)" and rest: "\<forall>c \<in> set cs. c < length (adj m)"
    using Cons.prems by simp_all
  obtain q1 where q1: "queueCapital m h flux c (neighbours m c) q = Inr q1"
    and e1: "\<forall>e \<in> set q1. e \<in> set q \<or> city e = c \<and> vx e \<in> set (neighbours m c)"
    using queueCapital_ok [OF ok c, of "neighbours m c" h flux q] by (auto simp: neighbours_def)
  obtain terr' q' where s: "seed m h flux cs (terr(c \<mapsto> c), q1) = Inr (terr', q')"
    and t: "\<forall>v. terr' v = (if v \<in> set cs then Some v else (terr(c \<mapsto> c)) v)"
    and e: "\<forall>e \<in> set q'. e \<in> set q1 \<or> city e \<in> set cs \<and> vx e \<in> set (adj m ! city e)"
    using Cons.IH [OF rest, of "terr(c \<mapsto> c)" q1] by blast
  have "seed m h flux (c # cs) (terr, q) = Inr (terr', q')" using c q1 s by simp
  moreover have "\<forall>v. terr' v = (if v \<in> set (c # cs) then Some v else terr v)"
    using t by auto
  moreover have "\<forall>e \<in> set q'. e \<in> set q \<or> city e \<in> set (c # cs) \<and> vx e \<in> set (adj m ! city e)"
    using e e1 by (auto simp: neighbours_def)
  ultimately show ?case by blast
qed

lemma terrStep_extends:
  assumes "terrStep m h flux (terr, q) = Inr (terr', q')"
  shows "terr \<subseteq>\<^sub>m terr'"
proof -
  obtain u q0 where d: "dequeue q = (u, q0)" by (cases "dequeue q")
  show ?thesis
  proof (cases "terr (vx u) \<noteq> None")
    case True
    then have "terr' = terr" using assms d by (simp add: terrStep_def)
    then show ?thesis by simp
  next
    case False
    then have "terr' = terr(vx u \<mapsto> city u)"
      using assms d by (auto simp: terrStep_def Let_def split: if_splits sum.splits)
    then show ?thesis using False by (auto simp: map_le_def)
  qed
qed

lemma terrStep_discards:
  assumes "dequeue q = (u, q')" "terr (vx u) \<noteq> None"
  shows "terrStep m h flux (terr, q) = Inr (terr, q')"
  using assms by (simp add: terrStep_def)

lemma terrLoop_extends:
  "terrLoop m h flux (terr, q) = Inr t \<Longrightarrow> terr \<subseteq>\<^sub>m t"
proof (induction m h flux "(terr, q)" arbitrary: terr q rule: terrLoop.induct)
  case (1 m h flux terr queue)
  show ?case
  proof (cases "queue = []")
    case True
    then show ?thesis using "1.prems" by simp
  next
    case False
    then obtain terr' q' where st: "terrStep m h flux (terr, queue) = Inr (terr', q')"
      and lp: "terrLoop m h flux (terr', q') = Inr t"
      using "1.prems" by (auto split: sum.splits)
    have "terr' \<subseteq>\<^sub>m t" by (rule "1.hyps" [OF False st lp])
    moreover have "terr \<subseteq>\<^sub>m terr'" by (rule terrStep_extends [OF st])
    ultimately show ?thesis by (rule map_le_trans [rotated])
  qed
qed

lemma terrStep_claimed:
  assumes ok: "mesh_ok m" and inv: "claimed m caps (terr, q)" and ne: "q \<noteq> []"
  shows "\<exists>terr' q'. terrStep m h flux (terr, q) = Inr (terr', q') \<and> claimed m caps (terr', q')"
proof -
  obtain u q0 where d: "dequeue q = (u, q0)" by (cases "dequeue q")
  have u: "u \<in> set q" and sub: "set q0 \<subseteq> set q"
    using dequeue_shorter [OF ne d] by simp_all
  have uq: "city u \<in> caps" "(city u, vx u) \<in> (reach m)\<^sup>*" "vx u < length (adj m)"
    using inv u by (auto simp: claimed_def)
  show ?thesis
  proof (cases "terr (vx u) \<noteq> None")
    case True
    then have "terrStep m h flux (terr, q) = Inr (terr, q0)" using d by (simp add: terrStep_def)
    moreover have "claimed m caps (terr, q0)" using inv sub by (auto simp: claimed_def)
    ultimately show ?thesis by blast
  next
    case False
    let ?terr = "terr(vx u \<mapsto> city u)"
    obtain q' where q': "queueNeighbours m h flux ?terr u (neighbours m (vx u)) q0 = Inr q'"
      and e: "\<forall>e \<in> set q'. e \<in> set q0 \<or> city e = city u \<and> vx e \<in> set (neighbours m (vx u))"
      using queueNeighbours_ok [OF ok uq(3), of "neighbours m (vx u)" h flux ?terr q0]
      by (auto simp: neighbours_def)
    have st: "terrStep m h flux (terr, q) = Inr (?terr, q')"
      using d False uq(3) q' by (simp add: terrStep_def Let_def)
    have c1: "\<forall>c \<in> caps. ?terr c = Some c"
    proof
      fix c assume "c \<in> caps"
      then have "terr c = Some c" using inv by (simp add: claimed_def)
      then show "?terr c = Some c" using False by auto
    qed
    have c2: "\<forall>v c. ?terr v = Some c \<longrightarrow> c \<in> caps \<and> (c, v) \<in> (reach m)\<^sup>*"
      using inv uq by (auto simp: claimed_def)
    have c3: "\<forall>e \<in> set q'. city e \<in> caps \<and> (city e, vx e) \<in> (reach m)\<^sup>* \<and> vx e < length (adj m)"
    proof
      fix e assume "e \<in> set q'"
      then consider "e \<in> set q0" | "city e = city u" "vx e \<in> set (adj m ! vx u)"
        using e by (auto simp: neighbours_def)
      then show "city e \<in> caps \<and> (city e, vx e) \<in> (reach m)\<^sup>* \<and> vx e < length (adj m)"
      proof cases
        case 1
        then show ?thesis using inv sub by (auto simp: claimed_def)
      next
        case 2
        have "(vx u, vx e) \<in> reach m" using 2(2) uq(3) by (simp add: reach_def)
        then have "(city e, vx e) \<in> (reach m)\<^sup>*" using uq(2) 2(1) by auto
        then show ?thesis using 2 uq(1) adj_in_range(1) [OF ok uq(3) 2(2)] by simp
      qed
    qed
    have "claimed m caps (?terr, q')" using c1 c2 c3 by (simp add: claimed_def)
    then show ?thesis using st by blast
  qed
qed

lemma terrLoop_claimed:
  "mesh_ok m \<Longrightarrow> claimed m caps (terr, q) \<Longrightarrow>
     \<exists>t. terrLoop m h flux (terr, q) = Inr t \<and> claimed m caps (t, [])"
proof (induction m h flux "(terr, q)" arbitrary: terr q rule: terrLoop.induct)
  case (1 m h flux terr queue)
  show ?case
  proof (cases "queue = []")
    case True
    then show ?thesis using "1.prems" by simp
  next
    case False
    obtain terr' q' where st: "terrStep m h flux (terr, queue) = Inr (terr', q')"
      and inv: "claimed m caps (terr', q')"
      using terrStep_claimed [OF "1.prems" False] by blast
    obtain t where "terrLoop m h flux (terr', q') = Inr t \<and> claimed m caps (t, [])"
      using "1.hyps" [OF False st "1.prems"(1) inv] by blast
    then show ?thesis using False st by simp
  qed
qed

lemma islandMesh_ok: "mesh_ok islandMesh"
  by (simp add: mesh_ok_def islandMesh_def)

lemma island_reach:
  assumes "(0, v) \<in> (reach islandMesh)\<^sup>*"
  shows "v = 0 \<or> v = 1"
  using assms
proof (induction rule: rtrancl_induct)
  case base
  then show ?case by simp
next
  case (step y z)
  then show ?case by (auto simp: reach_def islandMesh_def)
qed

lemma island_run:
  "getTerritories islandMesh [1, 1, 1, 1] [0, 2] 1 = Inr [0 \<mapsto> 0, 1 \<mapsto> 0]"
  by (simp add: getTerritories_def islandMesh_def seed.simps neighbours_def weightE_def
      enqueue_def terrStep_def dequeue_def Let_def)

text \<open>
  C4. On a height map bound to its mesh and capitals that are vertices of the mesh,
  \<open>getTerritories\<close> returns a territory map and no error. In it each of the
  first \<open>nterrs\<close> cities owns itself, every owner is one of these capitals and
  reaches its vertex along edges, so that a vertex that no capital reaches has no
  owner. A popped entry whose vertex has an owner is dropped and leaves the map as
  it is; one turn of the loop, and the rest of the run from any state, only extend
  the map: the owner of a vertex never changes.
\<close>

theorem getTerritories_ownership:
  assumes ok: "mesh_ok m" "field_ok m h"
    and caps: "\<forall>c \<in> set (take nterrs cities). c < length (adj m)"
  shows "\<exists>t. getTerritories m h cities nterrs = Inr t \<and>
           (\<forall>c \<in> set (take nterrs cities). t c = Some c) \<and>
           (\<forall>v c. t v = Some c \<longrightarrow> c \<in> set (take nterrs cities) \<and> (c, v) \<in> (reach m)\<^sup>*) \<and>
           (\<forall>v. (\<forall>c \<in> set (take nterrs cities). (c, v) \<notin> (reach m)\<^sup>*) \<longrightarrow> t v = None) \<and>
           (\<forall>terr q u q'. dequeue q = (u, q') \<and> terr (vx u) \<noteq> None \<longrightarrow>
              terrStep m h (getFlux m h) (terr, q) = Inr (terr, q')) \<and>
           (\<forall>terr q terr' q'. terrStep m h (getFlux m h) (terr, q) = Inr (terr', q') \<longrightarrow>
              terr \<subseteq>\<^sub>m terr') \<and>
           (\<forall>terr q t'. terrLoop m h (getFlux m h) (terr, q) = Inr t' \<longrightarrow> terr \<subseteq>\<^sub>m t')"
proof -
  define flux where "flux = getFlux m h"
  define cs where "cs = take nterrs cities"
  have n: "take (if nterrs > length cities then length cities else nterrs) cities = cs"
    by (simp add: cs_def)
  have len: "\<not> length h > length (adj m)"
    using ok by (simp add: mesh_ok_def field_ok_def)
  obtain terr0 q0 where sd: "seed m h flux cs (Map.empty, []) = Inr (terr0, q0)"
    and t0: "\<forall>v. terr0 v = (if v \<in> set cs then Some v else None)"
    and e0: "\<forall>e \<in> set q0. e \<in> set [] \<or> city e \<in> set cs \<and> vx e \<in> set (adj m ! city e)"
    using seed_ok [OF ok(1), of cs h flux Map.empty "[]"] caps unfolding cs_def by auto
  have inv0: "claimed m (set cs) (terr0, q0)"
    unfolding claimed_def
  proof (intro conjI ballI allI impI)
    fix c assume "c \<in> set cs"
    then show "fst (terr0, q0) c = Some c" using t0 by simp
  next
    fix v c assume "fst (terr0, q0) v = Some c"
    then have "v \<in> set cs \<and> c = v" using t0 by (auto split: if_splits)
    then show "c \<in> set cs" "(c, v) \<in> (reach m)\<^sup>*" by simp_all
  next
    fix e assume "e \<in> set (snd (terr0, q0))"
    then have c: "city e \<in> set cs" and v: "vx e \<in> set (adj m ! city e)" using e0 by auto
    have cl: "city e < length (adj m)" using c caps by (simp add: cs_def)
    show "city e \<in> set cs" by (rule c)
    show "(city e, vx e) \<in> (reach m)\<^sup>*" using cl v by (auto simp: reach_def)
    show "vx e < length (adj m)" by (rule adj_in_range(1) [OF ok(1) cl v])
  qed
  obtain t where lp: "terrLoop m h flux (terr0, q0) = Inr t" and fin: "claimed m (set cs) (t, [])"
    using terrLoop_claimed [OF ok(1) inv0] by blast
  have g: "getTerritories m h cities nterrs = Inr t"
    unfolding getTerritories_def Let_def n flux_def [symmetric] using len sd lp by simp
  have own: "\<forall>c \<in> set cs. t c = Some c" using fin by (simp add: claimed_def)
  have from_cap: "\<forall>v c. t v = Some c \<longrightarrow> c \<in> set cs \<and> (c, v) \<in> (reach m)\<^sup>*"
    using fin by (simp add: claimed_def)
  have unreached: "\<forall>v. (\<forall>c \<in> set cs. (c, v) \<notin> (reach m)\<^sup>*) \<longrightarrow> t v = None"
  proof (intro allI impI)
    fix v assume a: "\<forall>c \<in> set cs. (c, v) \<notin> (reach m)\<^sup>*"
    show "t v = None"
    proof (cases "t v")
      case None
      then show ?thesis .
    next
      case (Some c)
      then show ?thesis using from_cap a by blast
    qed
  qed
  have d: "\<forall>terr q u q'. dequeue q = (u, q') \<and> terr (vx u) \<noteq> None \<longrightarrow>
              terrStep m h flux (terr, q) = Inr (terr, q')"
    using terrStep_discards by blast
  have s: "\<forall>terr q terr' q'. terrStep m h flux (terr, q) = Inr (terr', q') \<longrightarrow> terr \<subseteq>\<^sub>m terr'"
    using terrStep_extends by blast
  have l: "\<forall>terr q t'. terrLoop m h flux (terr, q) = Inr t' \<longrightarrow> terr \<subseteq>\<^sub>m t'"
    using terrLoop_extends by blast
  show ?thesis
    using g own from_cap unreached d s l unfolding cs_def flux_def
    by (intro exI [of _ t] conjI) assumption+
qed

theorem getTerritories_ownership_witness:
  "mesh_ok islandMesh \<and> field_ok islandMesh [1, 1, 1, 1] \<and>
   (\<exists>t. getTerritories islandMesh [1, 1, 1, 1] [0, 2] 1 = Inr t \<and>
      t 0 = Some 0 \<and> t 2 = None \<and> t 3 = None)"
proof -
  have f: "field_ok islandMesh [1, 1, 1, 1]" by (simp add: field_ok_def islandMesh_def)
  have c: "\<forall>c \<in> set (take 1 [0, 2 :: nat]). c < length (adj islandMesh)"
    by (simp add: islandMesh_def)
  obtain t where g: "getTerritories islandMesh [1, 1, 1, 1] [0, 2] 1 = Inr t"
    and own: "\<forall>c \<in> set (take 1 [0, 2 :: nat]). t c = Some c"
    and un: "\<forall>v. (\<forall>c \<in> set (take 1 [0, 2 :: nat]). (c, v) \<notin> (reach islandMesh)\<^sup>*) \<longrightarrow> t v = None"
    using getTerritories_ownership [OF islandMesh_ok f c] by blast
  have "t 0 = Some 0" using own by simp
  moreover have "t 2 = None" using un [rule_format, of 2] island_reach [of 2] by auto
  moreover have "t 3 = None" using un [rule_format, of 3] island_reach [of 3] by auto
  ultimately show ?thesis using islandMesh_ok f g by blast
qed

end
